theory Spec2Isabelle
  imports Main "HOL-Library.AList" "HOL-Library.Sublist" "HOL-Library.Multiset"
begin

section \<open>The UI engine of go-app: event queue, update scheduler, message bus\<close>

text \<open>
  A shallow embedding of \<^verbatim>\<open>pkg/app/engine.go\<close>. The engine owns a channel of events, the
  set of components waiting for a re-render, the batch list of update descriptors, the
  buffer of deferred events and the message registry. The component tree, the user's
  callbacks and the library sort are not part of the file: the tree is a store of nodes,
  the callbacks and the sort are parameters.
\<close>

subsection \<open>Nodes and the tree\<close>

text \<open>
  A \<^verbatim>\<open>UI\<close> value is a pointer to a node; \<open>None\<close> is the nil interface. A node answers
  \<^verbatim>\<open>parent()\<close>, \<^verbatim>\<open>Mounted()\<close>, \<^verbatim>\<open>children()\<close>, and the type assertion
  \<^verbatim>\<open>n.(Composer)\<close>.
\<close>

type_synonym nid = nat

record ui =
  parent :: "nid option"
  Mounted :: bool
  isComposer :: bool
  children :: "nid list"

subsection \<open>Events, update descriptors, message handlers\<close>

text \<open>
  A \<^verbatim>\<open>MsgHandler\<close> is a Go function value: a code pointer with the variables it captured.
  \<^verbatim>\<open>%p\<close> prints the code pointer only.
\<close>

record MsgHandler =
  codeptr :: nat
  captured :: nat

text \<open>
  The function of an event (\<^verbatim>\<open>func(Context)\<close>): nil, a closure of the caller (numbered),
  the closure \<^verbatim>\<open>Post\<close> builds around a handler and the posted value, or the closure
  \<^verbatim>\<open>Mount\<close> builds around the node to mount. Posted values are opaque; they are numbers here.
\<close>

datatype func =
    NilFunc
  | UserFunc nat
  | PostFunc MsgHandler nat
  | MountFunc nid

record event =
  source :: nid
  deferable :: bool
  ev_function :: func

record updateDescriptor =
  compo :: nid
  priority :: nat

record msgHandler =
  src :: nid
  mh_function :: MsgHandler

text \<open>The key \<^verbatim>\<open>fmt.Sprintf("%p-%p", src, h)\<close>: the node's address and the handler's code pointer.\<close>

type_synonym key = "nid \<times> nat"

text \<open>What the engine calls outside itself, in the order it calls it (a ghost log).\<close>

datatype call =
    Exec event
  | Rerender nid

subsection \<open>The engine\<close>

text \<open>
  The fields of \<^verbatim>\<open>engine\<close> that the scheduler uses, with the tree beside them. The Go map
  \<^verbatim>\<open>updates\<close> is a set. An inner map of \<^verbatim>\<open>messages\<close> is an association list with one
  entry per key: the list order is the order in which \<^verbatim>\<open>range\<close> visits the map, which Go
  leaves open, so a statement proved for every list holds for every order. The channel
  \<^verbatim>\<open>events\<close> is the list of the events it buffers, oldest first.
\<close>

record engine =
  nodes :: "nid \<Rightarrow> ui"
  Body :: "nid option"
  isMountedOnce :: bool
  events :: "event list"
  updates :: "nid set"
  updateQueue :: "updateDescriptor list"
  defers :: "event list"
  messages :: "string \<rightharpoonup> (key \<times> msgHandler) list"
  calls :: "call list"

definition eventBufferSize :: nat where
  "eventBufferSize = 4096"

text \<open>
  How a call ends when it does not return normally: a nil receiver, a nil function called,
  an index out of range, a send on the full channel (the sender waits for a receiver, which
  the sequential model does not have), a panic of a callback, the tagged error of
  \<^verbatim>\<open>Mount\<close>, or the error of \<^verbatim>\<open>updateRoot\<close> passed to \<^verbatim>\<open>panic\<close>.
\<close>

datatype stop =
    NilPointer
  | NilCall
  | IndexOutOfRange
  | SendBlocks
  | CallbackPanic nat
  | Failed string "(string \<times> nat) list" nat
  | Rethrown nat

text \<open>
  The code outside the file. Callbacks get the whole state and return the new one; the
  operations of the tree return their error (if any) with the state they leave.
  \<^verbatim>\<open>sort.Slice\<close> is not stable, so the sort is a parameter too.
\<close>

record ext =
  runFunc :: "nat \<Rightarrow> nid \<Rightarrow> engine \<Rightarrow> stop + engine"
  runHandler :: "MsgHandler \<Rightarrow> nid \<Rightarrow> nat \<Rightarrow> engine \<Rightarrow> stop + engine"
  updateRoot :: "nid \<Rightarrow> engine \<Rightarrow> nat option \<times> engine"
  replaceChildAt :: "nid \<Rightarrow> nat \<Rightarrow> nid \<Rightarrow> engine \<Rightarrow> nat option \<times> engine"
  update :: "nid \<Rightarrow> nid \<Rightarrow> engine \<Rightarrow> nat option \<times> engine"
  isErrReplace :: "nat \<Rightarrow> bool"
  sortSlice :: "updateDescriptor list \<Rightarrow> updateDescriptor list"

subsection \<open>Dispatch and Defer\<close>

text \<open>\<^verbatim>\<open>e.events <- ev\<close>: the send returns when the buffer has room.\<close>

definition send :: "engine \<Rightarrow> event \<Rightarrow> stop + engine" where
  "send e ev =
     (if length (events e) < eventBufferSize
      then Inr (e\<lparr>events := events e @ [ev]\<rparr>)
      else Inl SendBlocks)"

definition Dispatch :: "engine \<Rightarrow> nid option \<Rightarrow> func \<Rightarrow> stop + engine" where
  "Dispatch e s fn =
     (case (case s of None \<Rightarrow> Body e | Some n \<Rightarrow> Some n) of
        None \<Rightarrow> Inl NilPointer
      | Some n \<Rightarrow>
          if Mounted (nodes e n)
          then send e \<lparr>source = n, deferable = False, ev_function = fn\<rparr>
          else Inr e)"

definition Defer :: "engine \<Rightarrow> nid option \<Rightarrow> func \<Rightarrow> stop + engine" where
  "Defer e s fn =
     (case (case s of None \<Rightarrow> Body e | Some n \<Rightarrow> Some n) of
        None \<Rightarrow> Inl NilPointer
      | Some n \<Rightarrow>
          if Mounted (nodes e n)
          then send e \<lparr>source = n, deferable = True, ev_function = fn\<rparr>
          else Inr e)"

subsection \<open>scheduleComponentUpdate\<close>

text \<open>
  The loop of \<^verbatim>\<open>scheduleComponentUpdate\<close>: it leaves by \<^verbatim>\<open>return\<close> when the first component
  on the way up is already scheduled, and by \<^verbatim>\<open>break\<close> at the node without parent. A cyclic
  parent chain keeps it running: the result is then \<open>None\<close>.
\<close>

datatype walk =
    IsScheduled
  | AtRoot "nid option" nat

partial_function (option) scheduleLoop ::
  "engine \<Rightarrow> nid \<Rightarrow> nid option \<Rightarrow> nat \<Rightarrow> walk option" where
  "scheduleLoop e n c depth =
     (if c = None \<and> isComposer (nodes e n) \<and> n \<in> updates e then Some IsScheduled
      else
        (case parent (nodes e n) of
           None \<Rightarrow>
             Some (AtRoot (if c = None \<and> isComposer (nodes e n) then Some n else c) depth)
         | Some p \<Rightarrow>
             scheduleLoop e p
               (if c = None \<and> isComposer (nodes e n) then Some n else c)
               (if (if c = None \<and> isComposer (nodes e n) then Some n else c) \<noteq> None
                then depth + 1 else depth)))"

declare scheduleLoop.simps [code]

definition scheduleComponentUpdate :: "engine \<Rightarrow> nid \<Rightarrow> engine option" where
  "scheduleComponentUpdate e n =
     (if \<not> Mounted (nodes e n) then Some e
      else
        (case scheduleLoop e n None 0 of
           None \<Rightarrow> None
         | Some IsScheduled \<Rightarrow> Some e
         | Some (AtRoot None depth) \<Rightarrow> Some e
         | Some (AtRoot (Some c) depth) \<Rightarrow>
             Some (e\<lparr>updates := insert c (updates e),
                     updateQueue := updateQueue e @ [\<lparr>compo = c, priority = depth + 1\<rparr>]\<rparr>)))"

subsection \<open>Running an event\<close>

text \<open>
  The tags that the three panics of \<^verbatim>\<open>Mount\<close> attach to
  \<^verbatim>\<open>errors.New("mounting ui element failed")\<close> before wrapping the cause.
\<close>

definition mountFailed :: "engine \<Rightarrow> nat \<Rightarrow> stop" where
  "mountFailed e err =
     Failed ''mounting ui element failed''
       [(''events-count'', length (events e)),
        (''events-capacity'', eventBufferSize),
        (''updates-count'', card (updates e)),
        (''updates-queue-len'', length (updateQueue e))]
       err"

text \<open>The closure that \<^verbatim>\<open>Mount\<close> dispatches, run with the node \<open>n\<close> it captured.\<close>

definition mountBody :: "ext \<Rightarrow> nid \<Rightarrow> engine \<Rightarrow> stop + engine" where
  "mountBody X n e =
     (if \<not> isMountedOnce e then
        (case Body e of
           None \<Rightarrow> Inl NilPointer
         | Some b \<Rightarrow>
             (case replaceChildAt X b 0 n e of
                (Some err, e1) \<Rightarrow> Inl (mountFailed e1 err)
              | (None, e1) \<Rightarrow> Inr (e1\<lparr>isMountedOnce := True\<rparr>)))
      else
        (case Body e of
           None \<Rightarrow> Inl NilPointer
         | Some b \<Rightarrow>
             (case children (nodes e b) of
                [] \<Rightarrow> Inl IndexOutOfRange
              | c # cs \<Rightarrow>
                  (case update X c n e of
                     (None, e1) \<Rightarrow> Inr e1
                   | (Some err, e1) \<Rightarrow>
                       if \<not> isErrReplace X err then Inl (mountFailed e1 err)
                       else
                         (case Body e1 of
                            None \<Rightarrow> Inl NilPointer
                          | Some b1 \<Rightarrow>
                              (case replaceChildAt X b1 0 n e1 of
                                 (Some err2, e2) \<Rightarrow> Inl (mountFailed e2 err2)
                               | (None, e2) \<Rightarrow> Inr e2))))))"

text \<open>Calling the function of an event with \<^verbatim>\<open>makeContext(source)\<close>.\<close>

fun apply_func :: "ext \<Rightarrow> func \<Rightarrow> nid \<Rightarrow> engine \<Rightarrow> stop + engine" where
  "apply_func X NilFunc n e = Inl NilCall"
| "apply_func X (UserFunc k) n e = runFunc X k n e"
| "apply_func X (PostFunc h v) n e = runHandler X h n v e"
| "apply_func X (MountFunc m) n e = mountBody X m e"

text \<open>The call, entered in the log when it returns.\<close>

definition invoke :: "ext \<Rightarrow> event \<Rightarrow> engine \<Rightarrow> stop + engine" where
  "invoke X ev e =
     (case apply_func X (ev_function ev) (source ev) e of
        Inl s \<Rightarrow> Inl s
      | Inr e1 \<Rightarrow> Inr (e1\<lparr>calls := calls e @ [Exec ev]\<rparr>))"

definition execEvent :: "ext \<Rightarrow> engine \<Rightarrow> event \<Rightarrow> stop + engine" where
  "execEvent X e ev =
     (if Mounted (nodes e (source ev)) \<and> ev_function ev \<noteq> NilFunc
      then invoke X ev e
      else Inr e)"

definition Mount :: "engine \<Rightarrow> nid \<Rightarrow> stop + engine" where
  "Mount e n = Dispatch e (Body e) (MountFunc n)"

subsection \<open>Emit\<close>

partial_function (option) emitLoop ::
  "engine \<Rightarrow> nid option \<Rightarrow> nat \<Rightarrow> (stop + engine) option" where
  "emitLoop e n compoCount =
     (case n of
        None \<Rightarrow> Some (Inr e)
      | Some m \<Rightarrow>
          if \<not> isComposer (nodes e m) then emitLoop e (parent (nodes e m)) compoCount
          else if compoCount + 1 > 1 then
            (case Dispatch e (Some m) NilFunc of
               Inl s \<Rightarrow> Some (Inl s)
             | Inr e1 \<Rightarrow> emitLoop e1 (parent (nodes e1 m)) (compoCount + 1))
          else emitLoop e (parent (nodes e m)) (compoCount + 1))"

declare emitLoop.simps [code]

text \<open>\<^verbatim>\<open>fn\<close> is a \<^verbatim>\<open>func()\<close> of the caller: \<open>None\<close> is nil.\<close>

definition Emit ::
  "engine \<Rightarrow> nid option \<Rightarrow> (engine \<Rightarrow> stop + engine) option \<Rightarrow> (stop + engine) option" where
  "Emit e s fn =
     (case s of
        None \<Rightarrow> Some (Inl NilPointer)
      | Some n \<Rightarrow>
          if \<not> Mounted (nodes e n) then Some (Inr e)
          else
            (case (case fn of None \<Rightarrow> Inr e | Some f \<Rightarrow> f e) of
               Inl st \<Rightarrow> Some (Inl st)
             | Inr e1 \<Rightarrow> emitLoop e1 (Some n) 0))"

subsection \<open>The message bus\<close>

definition Handle :: "engine \<Rightarrow> string \<Rightarrow> nid \<Rightarrow> MsgHandler \<Rightarrow> engine" where
  "Handle e msg s h =
     e\<lparr>messages := (messages e)
          (msg \<mapsto> AList.update (s, codeptr h) \<lparr>src = s, mh_function = h\<rparr>
                     (case messages e msg of None \<Rightarrow> [] | Some handlers \<Rightarrow> handlers))\<rparr>"

text \<open>\<^verbatim>\<open>delete(handlers, k)\<close> on the inner map of the topic.\<close>

definition deleteHandler :: "engine \<Rightarrow> string \<Rightarrow> key \<Rightarrow> engine" where
  "deleteHandler e msg k =
     e\<lparr>messages := (messages e)(msg := map_option (AList.delete k) (messages e msg))\<rparr>"

fun postLoop :: "string \<Rightarrow> nat \<Rightarrow> (key \<times> msgHandler) list \<Rightarrow> engine \<Rightarrow> stop + engine" where
  "postLoop msg v [] e = Inr e"
| "postLoop msg v ((k, h) # hs) e =
     (case Dispatch (if \<not> Mounted (nodes e (src h)) then deleteHandler e msg k else e)
             (Some (src h)) (PostFunc (mh_function h) v) of
        Inl s \<Rightarrow> Inl s
      | Inr e1 \<Rightarrow> postLoop msg v hs e1)"

definition Post :: "engine \<Rightarrow> string \<Rightarrow> nat \<Rightarrow> stop + engine" where
  "Post e msg v =
     (case messages e msg of
        None \<Rightarrow> Inr e
      | Some handlers \<Rightarrow> postLoop msg v handlers e)"

subsection \<open>The update flush\<close>

definition componentUpdated :: "engine \<Rightarrow> nid \<Rightarrow> engine" where
  "componentUpdated e c = e\<lparr>updates := updates e - {c}\<rparr>"

text \<open>
  The \<^verbatim>\<open>range\<close> over the sorted batch list: the slice is read once, so the loop visits the
  entries that were there when it started.
\<close>

fun updateLoop :: "ext \<Rightarrow> updateDescriptor list \<Rightarrow> engine \<Rightarrow> stop + engine" where
  "updateLoop X [] e = Inr e"
| "updateLoop X (ud # uds) e =
     (if \<not> Mounted (nodes e (compo ud)) then updateLoop X uds e
      else if compo ud \<notin> updates e then updateLoop X uds e
      else
        (case updateRoot X (compo ud) e of
           (Some err, e1) \<Rightarrow> Inl (Rethrown err)
         | (None, e1) \<Rightarrow>
             updateLoop X uds
               (componentUpdated (e1\<lparr>calls := calls e @ [Rerender (compo ud)]\<rparr>) (compo ud))))"

definition updateComponents :: "ext \<Rightarrow> engine \<Rightarrow> stop + engine" where
  "updateComponents X e =
     (if updates e = {} then Inr e
      else
        (case updateLoop X (sortSlice X (updateQueue e))
                (e\<lparr>updateQueue := sortSlice X (updateQueue e)\<rparr>) of
           Inl s \<Rightarrow> Inl s
         | Inr e1 \<Rightarrow> Inr (e1\<lparr>updateQueue := []\<rparr>)))"

subsection \<open>The deferred events\<close>

fun deferLoop :: "ext \<Rightarrow> event list \<Rightarrow> engine \<Rightarrow> stop + engine" where
  "deferLoop X [] e = Inr e"
| "deferLoop X (ev # evs) e =
     (if Mounted (nodes e (source ev)) then
        (case invoke X ev e of
           Inl s \<Rightarrow> Inl s
         | Inr e1 \<Rightarrow> deferLoop X evs e1)
      else deferLoop X evs e)"

definition execDeferableEvents :: "ext \<Rightarrow> engine \<Rightarrow> stop + engine" where
  "execDeferableEvents X e =
     (case deferLoop X (defers e) e of
        Inl s \<Rightarrow> Inl s
      | Inr e1 \<Rightarrow> Inr (e1\<lparr>defers := []\<rparr>))"

subsection \<open>Consume and ConsumeNext\<close>

text \<open>The two calls of the \<^verbatim>\<open>default\<close> branch: the flush, then the deferred events.\<close>

definition flush :: "ext \<Rightarrow> engine \<Rightarrow> stop + engine" where
  "flush X e =
     (case updateComponents X e of
        Inl s \<Rightarrow> Inl s
      | Inr e1 \<Rightarrow> execDeferableEvents X e1)"

text \<open>
  \<^verbatim>\<open>Consume\<close> receives while the channel holds an event. Callbacks may send new events, so
  the loop need not end: the result is then \<open>None\<close>.
\<close>

partial_function (option) Consume :: "ext \<Rightarrow> engine \<Rightarrow> (stop + engine) option" where
  "Consume X e =
     (case events e of
        [] \<Rightarrow> Some (flush X e)
      | ev # rest \<Rightarrow>
          if deferable ev then Consume X (e\<lparr>events := rest, defers := defers e @ [ev]\<rparr>)
          else
            (case execEvent X (e\<lparr>events := rest\<rparr>) ev of
               Inl s \<Rightarrow> Some (Inl s)
             | Inr e1 \<Rightarrow>
                 (case scheduleComponentUpdate e1 (source ev) of
                    None \<Rightarrow> None
                  | Some e2 \<Rightarrow> Consume X e2)))"

declare Consume.simps [code]

definition ConsumeNext :: "ext \<Rightarrow> engine \<Rightarrow> (stop + engine) option" where
  "ConsumeNext X e =
     (case events e of
        [] \<Rightarrow> Some (Inr e)
      | ev # rest \<Rightarrow>
          if deferable ev then Some (flush X (e\<lparr>events := rest, defers := defers e @ [ev]\<rparr>))
          else
            (case execEvent X (e\<lparr>events := rest\<rparr>) ev of
               Inl s \<Rightarrow> Some (Inl s)
             | Inr e1 \<Rightarrow>
                 (case scheduleComponentUpdate e1 (source ev) of
                    None \<Rightarrow> None
                  | Some e2 \<Rightarrow> Some (flush X e2))))"

subsection \<open>Example states\<close>

text \<open>
  A small tree: the components 1, 2 and 3, each the parent of the next; the element 4 below
  component 3; the detached, unmounted element 5 and the unmounted component 6; the body 0
  with the element 7 as its child.
\<close>

definition mk :: "nid option \<Rightarrow> bool \<Rightarrow> bool \<Rightarrow> nid list \<Rightarrow> ui" where
  "mk p m c cs = \<lparr>parent = p, Mounted = m, isComposer = c, children = cs\<rparr>"

definition exampleTree :: "nid \<Rightarrow> ui" where
  "exampleTree =
     (\<lambda>_. mk None False False [])
       (0 := mk None True False [7],
        1 := mk None True True [2],
        2 := mk (Some 1) True True [3],
        3 := mk (Some 2) True True [4],
        4 := mk (Some 3) True False [],
        6 := mk None False True [],
        7 := mk (Some 0) True False [])"

definition exampleEngine :: engine where
  "exampleEngine =
     \<lparr>nodes = exampleTree, Body = Some 0, isMountedOnce = False, events = [],
      updates = {}, updateQueue = [], defers = [], messages = Map.empty, calls = []\<rparr>"

text \<open>Callbacks that change nothing and never fail, with a stable sort.\<close>

definition quiet :: ext where
  "quiet =
     \<lparr>runFunc = (\<lambda>k n e. Inr e),
      runHandler = (\<lambda>h n v e. Inr e),
      updateRoot = (\<lambda>c e. (None, e)),
      replaceChildAt = (\<lambda>b i n e. (None, e)),
      update = (\<lambda>c n e. (None, e)),
      isErrReplace = (\<lambda>x. False),
      sortSlice = sort_key priority\<rparr>"

text \<open>Two handlers with the same code pointer, and a registry on the topic \<open>''x''\<close>.\<close>

definition handlerA :: MsgHandler where
  "handlerA = \<lparr>codeptr = 1, captured = 10\<rparr>"

definition handlerB :: MsgHandler where
  "handlerB = \<lparr>codeptr = 1, captured = 20\<rparr>"

definition busEngine :: engine where
  "busEngine =
     exampleEngine\<lparr>messages :=
       [''x'' \<mapsto> [((5, 1), \<lparr>src = 5, mh_function = handlerA\<rparr>),
                  ((3, 1), \<lparr>src = 3, mh_function = handlerA\<rparr>)]]\<rparr>"

lemmas example_defs =
  mk_def exampleTree_def exampleEngine_def quiet_def handlerA_def handlerB_def busEngine_def

section \<open>Dispatch and Defer\<close>

lemma send_room:
  "length (events e) < eventBufferSize \<Longrightarrow> send e ev = Inr (e\<lparr>events := events e @ [ev]\<rparr>)"
  by (simp add: send_def)

lemma Dispatch_unmounted: "\<not> Mounted (nodes e n) \<Longrightarrow> Dispatch e (Some n) fn = Inr e"
  by (simp add: Dispatch_def)

lemma Defer_unmounted: "\<not> Mounted (nodes e n) \<Longrightarrow> Defer e (Some n) fn = Inr e"
  by (simp add: Defer_def)

lemma Dispatch_mounted:
  "Mounted (nodes e n) \<Longrightarrow> length (events e) < eventBufferSize \<Longrightarrow>
   Dispatch e (Some n) fn =
     Inr (e\<lparr>events := events e @ [\<lparr>source = n, deferable = False, ev_function = fn\<rparr>]\<rparr>)"
  by (simp add: Dispatch_def send_room)

text \<open>
  C10. With a nil source, \<^verbatim>\<open>Dispatch\<close> and \<^verbatim>\<open>Defer\<close> take the engine's body as the source:
  when the body is mounted and the channel has room, the call appends an event whose source
  is the body (not deferable for \<^verbatim>\<open>Dispatch\<close>, deferable for \<^verbatim>\<open>Defer\<close>), exactly as the
  call with the body as its source does.
\<close>

theorem nil_source_is_Body:
  assumes "Body e = Some b"
    and "Mounted (nodes e b)"
    and "length (events e) < eventBufferSize"
  shows "Dispatch e None fn =
           Inr (e\<lparr>events := events e @ [\<lparr>source = b, deferable = False, ev_function = fn\<rparr>]\<rparr>)
       \<and> Defer e None fn =
           Inr (e\<lparr>events := events e @ [\<lparr>source = b, deferable = True, ev_function = fn\<rparr>]\<rparr>)
       \<and> Dispatch e None fn = Dispatch e (Some b) fn
       \<and> Defer e None fn = Defer e (Some b) fn"
  using assms by (simp add: Dispatch_def Defer_def send_room)

theorem nil_source_is_Body_witness:
  "Body exampleEngine = Some 0
   \<and> Mounted (nodes exampleEngine 0)
   \<and> length (events exampleEngine) < eventBufferSize
   \<and> Dispatch exampleEngine None (UserFunc 7) =
       Inr (exampleEngine\<lparr>events := [\<lparr>source = 0, deferable = False, ev_function = UserFunc 7\<rparr>]\<rparr>)
   \<and> Defer exampleEngine None (UserFunc 7) =
       Inr (exampleEngine\<lparr>events := [\<lparr>source = 0, deferable = True, ev_function = UserFunc 7\<rparr>]\<rparr>)"
proof -
  have b: "Body exampleEngine = Some 0"
    by (simp add: exampleEngine_def)
  have m: "Mounted (nodes exampleEngine 0)"
    by (simp add: example_defs)
  have r: "length (events exampleEngine) < eventBufferSize"
    by (simp add: exampleEngine_def eventBufferSize_def)
  have ev: "events exampleEngine = []"
    by (simp add: exampleEngine_def)
  from nil_source_is_Body [OF b m r, of "UserFunc 7"] b m r show ?thesis
    by (simp only: ev append_Nil simp_thms)
qed

section \<open>The message bus\<close>

text \<open>The event \<^verbatim>\<open>Post\<close> sends for an entry, and whether the entry's subscriber is mounted.\<close>

definition mkEvent :: "nat \<Rightarrow> key \<times> msgHandler \<Rightarrow> event" where
  "mkEvent v kh =
     \<lparr>source = src (snd kh), deferable = False, ev_function = PostFunc (mh_function (snd kh)) v\<rparr>"

definition subscriberMounted :: "engine \<Rightarrow> key \<times> msgHandler \<Rightarrow> bool" where
  "subscriberMounted e kh = Mounted (nodes e (src (snd kh)))"

lemma delete_filter: "AList.delete k xs = filter (\<lambda>p. fst p \<noteq> k) xs"
  by (induction xs) (auto simp: AList.delete_eq)

lemma subscriberMounted_events [simp]:
  "subscriberMounted (e\<lparr>events := evs\<rparr>) = subscriberMounted e"
  by (simp add: subscriberMounted_def fun_eq_iff)

lemma subscriberMounted_deleteHandler [simp]:
  "subscriberMounted (deleteHandler e msg k) = subscriberMounted e"
  by (simp add: subscriberMounted_def fun_eq_iff deleteHandler_def)

lemma events_deleteHandler [simp]: "events (deleteHandler e msg k) = events e"
  by (simp add: deleteHandler_def)

lemma nodes_deleteHandler [simp]: "nodes (deleteHandler e msg k) = nodes e"
  by (simp add: deleteHandler_def)

lemma calls_deleteHandler [simp]: "calls (deleteHandler e msg k) = calls e"
  by (simp add: deleteHandler_def)

lemma postLoop_step_mounted:
  assumes "subscriberMounted e (k, h)" and "length (events e) < eventBufferSize"
  shows "postLoop msg v ((k, h) # hs) e =
         postLoop msg v hs (e\<lparr>events := events e @ [mkEvent v (k, h)]\<rparr>)"
  using assms by (simp add: subscriberMounted_def Dispatch_def send_room mkEvent_def)

lemma postLoop_step_full:
  assumes "subscriberMounted e (k, h)" and "\<not> length (events e) < eventBufferSize"
  shows "postLoop msg v ((k, h) # hs) e = Inl SendBlocks"
  using assms by (simp add: subscriberMounted_def Dispatch_def send_def)

lemma postLoop_step_unmounted:
  assumes "\<not> subscriberMounted e (k, h)"
  shows "postLoop msg v ((k, h) # hs) e = postLoop msg v hs (deleteHandler e msg k)"
  using assms by (simp add: subscriberMounted_def Dispatch_def deleteHandler_def)

lemma postLoop_run:
  assumes "messages e msg = Some cur"
    and "length (events e) + length (filter (subscriberMounted e) hs) \<le> eventBufferSize"
  shows "postLoop msg v hs e =
     Inr (e\<lparr>events := events e @ map (mkEvent v) (filter (subscriberMounted e) hs),
            messages := (messages e)(msg \<mapsto>
               filter (\<lambda>p. fst p \<notin> fst ` set (filter (\<lambda>kh. \<not> subscriberMounted e kh) hs)) cur)\<rparr>)"
  using assms
proof (induction hs arbitrary: e cur)
  case Nil
  then have "(messages e)(msg \<mapsto> cur) = messages e"
    by (simp add: fun_upd_idem_iff)
  then show ?case by simp
next
  case (Cons a hs)
  obtain k h where a: "a = (k, h)" by (cases a)
  show ?case
  proof (cases "subscriberMounted e a")
    case True
    let ?e1 = "e\<lparr>events := events e @ [mkEvent v a]\<rparr>"
    from True Cons.prems have room: "length (events e) < eventBufferSize" by simp
    have m1: "messages ?e1 msg = Some cur" using Cons.prems by simp
    have r1: "length (events ?e1) + length (filter (subscriberMounted ?e1) hs) \<le> eventBufferSize"
      using Cons.prems True by simp
    show ?thesis
      unfolding a postLoop_step_mounted[OF True[unfolded a] room]
      using Cons.IH[OF m1 r1] True by (simp add: a)
  next
    case False
    let ?e1 = "deleteHandler e msg k"
    have m1: "messages ?e1 msg = Some (filter (\<lambda>p. fst p \<noteq> k) cur)"
      using Cons.prems by (simp add: deleteHandler_def delete_filter)
    have r1: "length (events ?e1) + length (filter (subscriberMounted ?e1) hs) \<le> eventBufferSize"
      using Cons.prems False by simp
    have f: "filter (\<lambda>p. fst p \<notin> fst ` set (filter (\<lambda>kh. \<not> subscriberMounted e kh) hs))
               (filter (\<lambda>p. fst p \<noteq> k) cur)
        = filter (\<lambda>p. fst p \<notin> fst ` set (filter (\<lambda>kh. \<not> subscriberMounted e kh) (a # hs))) cur"
      using False a by (auto intro!: filter_cong)
    have g: "\<And>E F. (deleteHandler e msg k)\<lparr>events := E,
                       messages := (messages (deleteHandler e msg k))(msg \<mapsto> F)\<rparr>
        = e\<lparr>events := E, messages := (messages e)(msg \<mapsto> F)\<rparr>"
      by (simp add: deleteHandler_def)
    have "postLoop msg v (a # hs) e = postLoop msg v hs ?e1"
      unfolding a by (rule postLoop_step_unmounted[OF False[unfolded a]])
    also have "\<dots> = Inr (?e1\<lparr>events := events e @ map (mkEvent v) (filter (subscriberMounted e) hs),
            messages := (messages ?e1)(msg \<mapsto>
               filter (\<lambda>p. fst p \<notin> fst ` set (filter (\<lambda>kh. \<not> subscriberMounted e kh) (a # hs))) cur)\<rparr>)"
      using Cons.IH[OF m1 r1] by (simp only: f subscriberMounted_deleteHandler events_deleteHandler)
    finally show ?thesis using False by (simp only: g filter.simps if_False)
  qed
qed

lemma filter_keys_distinct:
  assumes "distinct (map fst hs)"
  shows "filter (\<lambda>p. fst p \<notin> fst ` set (filter (\<lambda>kh. \<not> P kh) hs)) hs = filter P hs"
proof (rule filter_cong[OF refl])
  fix p assume p: "p \<in> set hs"
  have "fst p \<in> fst ` set (filter (\<lambda>kh. \<not> P kh) hs) \<longleftrightarrow> \<not> P p"
  proof
    assume "fst p \<in> fst ` set (filter (\<lambda>kh. \<not> P kh) hs)"
    then obtain q where q: "q \<in> set hs" "\<not> P q" "fst q = fst p" by auto
    from assms have "inj_on fst (set hs)" by (simp add: distinct_map)
    with p q have "q = p" by (auto dest: inj_onD)
    with q show "\<not> P p" by simp
  next
    assume "\<not> P p"
    with p show "fst p \<in> fst ` set (filter (\<lambda>kh. \<not> P kh) hs)" by auto
  qed
  then show "(fst p \<notin> fst ` set (filter (\<lambda>kh. \<not> P kh) hs)) = P p" by blast
qed

text \<open>What a returning \<^verbatim>\<open>Post\<close> loop leaves: new events for the mounted subscribers only, and
  the log and the tree as they were.\<close>

lemma postLoop_Inr:
  "postLoop msg v hs e = Inr e' \<Longrightarrow>
   events e' = events e @ map (mkEvent v) (filter (subscriberMounted e) hs)
   \<and> calls e' = calls e \<and> nodes e' = nodes e"
proof (induction hs arbitrary: e)
  case Nil
  then show ?case by simp
next
  case (Cons a hs)
  obtain k h where a: "a = (k, h)" by (cases a)
  show ?case
  proof (cases "subscriberMounted e a")
    case True
    show ?thesis
    proof (cases "length (events e) < eventBufferSize")
      case room: True
      let ?e1 = "e\<lparr>events := events e @ [mkEvent v a]\<rparr>"
      from Cons.prems have "postLoop msg v hs ?e1 = Inr e'"
        unfolding a postLoop_step_mounted[OF True[unfolded a] room] .
      from Cons.IH[OF this] True show ?thesis by simp
    next
      case False
      have "postLoop msg v (a # hs) e = Inl SendBlocks"
        unfolding a by (rule postLoop_step_full[OF True[unfolded a] False])
      with Cons.prems show ?thesis by simp
    qed
  next
    case False
    from Cons.prems have "postLoop msg v hs (deleteHandler e msg k) = Inr e'"
      unfolding a postLoop_step_unmounted[OF False[unfolded a]] .
    from Cons.IH[OF this] False show ?thesis by simp
  qed
qed

text \<open>A handler that defers, on the node of its context, the user function numbered by the
  value it receives; the other callbacks change nothing.\<close>

definition deferring :: ext where
  "deferring =
     quiet\<lparr>runHandler :=
       (\<lambda>h n v e. send e \<lparr>source = n, deferable = True, ev_function = UserFunc v\<rparr>)\<rparr>"

text \<open>
  C6. \<^verbatim>\<open>Post\<close> on a topic without handlers returns the engine as it is. On a topic with
  handlers (one entry per key) and room in the channel, it removes the entries whose
  subscriber is not mounted, and appends to the channel one event per entry whose
  subscriber is mounted, carrying the handler and the posted value; the log of calls is
  unchanged: no handler is called by \<^verbatim>\<open>Post\<close> itself. The event that \<^verbatim>\<open>Post\<close> sends for an
  entry is the call of the handler: when it is executed with its subscriber mounted, the
  handler of the entry runs with the context of the subscriber and the posted value, and
  the call is entered in the log; with the subscriber unmounted by then, nothing runs.
\<close>

theorem Post_dispatches_mounted:
  "(messages e msg = None \<longrightarrow> Post e msg v = Inr e)
   \<and> (\<forall>hs. messages e msg = Some hs \<and> distinct (map fst hs)
          \<and> length (events e) + length (filter (subscriberMounted e) hs) \<le> eventBufferSize
       \<longrightarrow> Post e msg v =
             Inr (e\<lparr>events := events e @ map (mkEvent v) (filter (subscriberMounted e) hs),
                    messages := (messages e)(msg \<mapsto> filter (subscriberMounted e) hs)\<rparr>))
   \<and> (\<forall>e'. Post e msg v = Inr e' \<longrightarrow> calls e' = calls e)
   \<and> (\<forall>kh e1. subscriberMounted e1 kh \<longrightarrow>
         execEvent X e1 (mkEvent v kh) =
           (case runHandler X (mh_function (snd kh)) (src (snd kh)) v e1 of
              Inl s \<Rightarrow> Inl s
            | Inr e2 \<Rightarrow> Inr (e2\<lparr>calls := calls e1 @ [Exec (mkEvent v kh)]\<rparr>)))
   \<and> (\<forall>kh e1. \<not> subscriberMounted e1 kh \<longrightarrow> execEvent X e1 (mkEvent v kh) = Inr e1)"
proof (intro conjI allI impI)
  assume "messages e msg = None"
  then show "Post e msg v = Inr e" by (simp add: Post_def)
next
  fix hs
  assume h: "messages e msg = Some hs \<and> distinct (map fst hs)
    \<and> length (events e) + length (filter (subscriberMounted e) hs) \<le> eventBufferSize"
  then have "Post e msg v = postLoop msg v hs e" by (simp add: Post_def)
  also have "\<dots> = Inr (e\<lparr>events := events e @ map (mkEvent v) (filter (subscriberMounted e) hs),
            messages := (messages e)(msg \<mapsto>
               filter (\<lambda>p. fst p \<notin> fst ` set (filter (\<lambda>kh. \<not> subscriberMounted e kh) hs)) hs)\<rparr>)"
    using h by (intro postLoop_run) simp_all
  finally show "Post e msg v =
      Inr (e\<lparr>events := events e @ map (mkEvent v) (filter (subscriberMounted e) hs),
             messages := (messages e)(msg \<mapsto> filter (subscriberMounted e) hs)\<rparr>)"
    using h by (simp only: filter_keys_distinct)
next
  fix e'
  assume p: "Post e msg v = Inr e'"
  show "calls e' = calls e"
  proof (cases "messages e msg")
    case None
    with p show ?thesis by (simp add: Post_def)
  next
    case (Some hs)
    with p have "postLoop msg v hs e = Inr e'" by (simp add: Post_def)
    from postLoop_Inr[OF this] show ?thesis by simp
  qed
next
  fix kh e1
  assume "subscriberMounted e1 kh"
  then show "execEvent X e1 (mkEvent v kh) =
           (case runHandler X (mh_function (snd kh)) (src (snd kh)) v e1 of
              Inl s \<Rightarrow> Inl s
            | Inr e2 \<Rightarrow> Inr (e2\<lparr>calls := calls e1 @ [Exec (mkEvent v kh)]\<rparr>))"
    by (simp add: execEvent_def invoke_def mkEvent_def subscriberMounted_def split: sum.splits)
next
  fix kh e1
  assume "\<not> subscriberMounted e1 kh"
  then show "execEvent X e1 (mkEvent v kh) = Inr e1"
    by (simp add: execEvent_def mkEvent_def subscriberMounted_def)
qed

theorem Post_dispatches_mounted_witness:
  "Post exampleEngine ''x'' 9 = Inr exampleEngine
   \<and> Post busEngine ''x'' 9 =
       Inr (busEngine\<lparr>events := [\<lparr>source = 3, deferable = False, ev_function = PostFunc handlerA 9\<rparr>],
              messages := [''x'' \<mapsto> [((3, 1), \<lparr>src = 3, mh_function = handlerA\<rparr>)]]\<rparr>)
   \<and> calls busEngine = []
   \<and> execEvent deferring busEngine \<lparr>source = 3, deferable = False, ev_function = PostFunc handlerA 9\<rparr> =
       Inr (busEngine\<lparr>events := [\<lparr>source = 3, deferable = True, ev_function = UserFunc 9\<rparr>],
              calls := [Exec \<lparr>source = 3, deferable = False, ev_function = PostFunc handlerA 9\<rparr>]\<rparr>)
   \<and> execEvent deferring busEngine \<lparr>source = 5, deferable = False, ev_function = PostFunc handlerA 9\<rparr> =
       Inr busEngine"
proof -
  note t = Post_dispatches_mounted [where v = 9 and X = deferring]
  have n: "messages exampleEngine ''x'' = None"
    by (simp add: exampleEngine_def)
  have a: "Post exampleEngine ''x'' 9 = Inr exampleEngine"
    using t [of exampleEngine "''x''"] n by blast
  let ?k3 = "((3::nat, 1::nat), \<lparr>src = 3, mh_function = handlerA\<rparr>)"
  let ?k5 = "((5::nat, 1::nat), \<lparr>src = 5, mh_function = handlerA\<rparr>)"
  let ?hs = "[?k5, ?k3]"
  have f: "filter (subscriberMounted busEngine) ?hs = [?k3]"
    by (simp add: subscriberMounted_def example_defs)
  have m: "messages busEngine ''x'' = Some ?hs"
    by (simp add: busEngine_def)
  have d: "distinct (map fst ?hs)" by simp
  have r: "length (events busEngine) + length (filter (subscriberMounted busEngine) ?hs) \<le> eventBufferSize"
    unfolding f by (simp add: example_defs eventBufferSize_def)
  have "Post busEngine ''x'' 9 =
      Inr (busEngine\<lparr>events := events busEngine @ map (mkEvent 9) (filter (subscriberMounted busEngine) ?hs),
             messages := (messages busEngine)(''x'' \<mapsto> filter (subscriberMounted busEngine) ?hs)\<rparr>)"
    using t [of busEngine "''x''"] m d r by blast
  then have b: "Post busEngine ''x'' 9 =
       Inr (busEngine\<lparr>events := [\<lparr>source = 3, deferable = False, ev_function = PostFunc handlerA 9\<rparr>],
              messages := [''x'' \<mapsto> [((3, 1), \<lparr>src = 3, mh_function = handlerA\<rparr>)]]\<rparr>)"
    unfolding f by (simp add: mkEvent_def busEngine_def exampleEngine_def)
  have c: "calls busEngine = []"
    by (simp add: busEngine_def exampleEngine_def)
  have m3: "subscriberMounted busEngine ?k3" and m5: "\<not> subscriberMounted busEngine ?k5"
    by (simp_all add: subscriberMounted_def example_defs)
  have ev3: "mkEvent 9 ?k3 = \<lparr>source = 3, deferable = False, ev_function = PostFunc handlerA 9\<rparr>"
    and ev5: "mkEvent 9 ?k5 = \<lparr>source = 5, deferable = False, ev_function = PostFunc handlerA 9\<rparr>"
    by (simp_all add: mkEvent_def)
  have rh: "runHandler deferring (mh_function (snd ?k3)) (src (snd ?k3)) 9 busEngine
      = Inr (busEngine\<lparr>events := [\<lparr>source = 3, deferable = True, ev_function = UserFunc 9\<rparr>]\<rparr>)"
    by (simp add: deferring_def quiet_def send_def eventBufferSize_def busEngine_def exampleEngine_def)
  have "execEvent deferring busEngine (mkEvent 9 ?k3) =
           (case runHandler deferring (mh_function (snd ?k3)) (src (snd ?k3)) 9 busEngine of
              Inl s \<Rightarrow> Inl s
            | Inr e2 \<Rightarrow> Inr (e2\<lparr>calls := calls busEngine @ [Exec (mkEvent 9 ?k3)]\<rparr>))"
    using t [of busEngine "''x''"] m3 by blast
  then have x3: "execEvent deferring busEngine \<lparr>source = 3, deferable = False, ev_function = PostFunc handlerA 9\<rparr> =
       Inr (busEngine\<lparr>events := [\<lparr>source = 3, deferable = True, ev_function = UserFunc 9\<rparr>],
              calls := [Exec \<lparr>source = 3, deferable = False, ev_function = PostFunc handlerA 9\<rparr>]\<rparr>)"
    unfolding rh ev3 by (simp add: c)
  have "execEvent deferring busEngine (mkEvent 9 ?k5) = Inr busEngine"
    using t [of busEngine "''x''"] m5 by blast
  then have x5: "execEvent deferring busEngine \<lparr>source = 5, deferable = False, ev_function = PostFunc handlerA 9\<rparr> =
       Inr busEngine"
    unfolding ev5 .
  from a b c x3 x5 show ?thesis by blast
qed

section \<open>Unmounted sources\<close>

lemma scheduleComponentUpdate_unmounted:
  "\<not> Mounted (nodes e n) \<Longrightarrow> scheduleComponentUpdate e n = Some e"
  by (simp add: scheduleComponentUpdate_def)

lemma mkEvent_source_mounted:
  "ev \<in> set (map (mkEvent v) (filter (subscriberMounted e) hs)) \<Longrightarrow> Mounted (nodes e (source ev))"
  by (auto simp: mkEvent_def subscriberMounted_def)

lemma Post_Inr:
  assumes "Post e msg v = Inr e'"
  shows "\<exists>new. events e' = events e @ new \<and> (\<forall>ev\<in>set new. Mounted (nodes e (source ev)))
          \<and> calls e' = calls e"
proof (cases "messages e msg")
  case None
  with assms show ?thesis by (simp add: Post_def)
next
  case (Some hs)
  with assms have "postLoop msg v hs e = Inr e'" by (simp add: Post_def)
  from postLoop_Inr[OF this] show ?thesis
    by (auto simp: mkEvent_def subscriberMounted_def)
qed

text \<open>
  C5. For a node \<open>n\<close> that is not mounted: \<^verbatim>\<open>Dispatch\<close> and \<^verbatim>\<open>Defer\<close> with \<open>n\<close> as the source
  return the engine unchanged; an event with source \<open>n\<close> taken from the channel or found in
  the deferred buffer is passed over without a call and without an error (the log and the
  state stay as they are, and \<^verbatim>\<open>Consume\<close> goes on with the rest of the channel); and a
  \<^verbatim>\<open>Post\<close> that returns has added no event with source \<open>n\<close> and has called nothing.
\<close>

theorem unmounted_source_is_skipped:
  assumes "\<not> Mounted (nodes e n)"
  shows "Dispatch e (Some n) fn = Inr e
       \<and> Defer e (Some n) fn = Inr e
       \<and> execEvent X e \<lparr>source = n, deferable = d, ev_function = fn\<rparr> = Inr e
       \<and> deferLoop X (\<lparr>source = n, deferable = d, ev_function = fn\<rparr> # evs) e = deferLoop X evs e
       \<and> Consume X (e\<lparr>events := \<lparr>source = n, deferable = False, ev_function = fn\<rparr> # evs\<rparr>)
           = Consume X (e\<lparr>events := evs\<rparr>)
       \<and> (\<forall>msg v e'. Post e msg v = Inr e' \<longrightarrow>
             filter (\<lambda>ev. source ev = n) (events e') = filter (\<lambda>ev. source ev = n) (events e)
             \<and> calls e' = calls e)"
proof (intro conjI allI impI)
  show "Dispatch e (Some n) fn = Inr e"
    using assms by (rule Dispatch_unmounted)
  show "Defer e (Some n) fn = Inr e"
    using assms by (rule Defer_unmounted)
  show "execEvent X e \<lparr>source = n, deferable = d, ev_function = fn\<rparr> = Inr e"
    using assms by (simp add: execEvent_def)
  show "deferLoop X (\<lparr>source = n, deferable = d, ev_function = fn\<rparr> # evs) e = deferLoop X evs e"
    using assms by simp
  show "Consume X (e\<lparr>events := \<lparr>source = n, deferable = False, ev_function = fn\<rparr> # evs\<rparr>)
           = Consume X (e\<lparr>events := evs\<rparr>)"
    using assms
    by (subst Consume.simps) (simp add: execEvent_def scheduleComponentUpdate_unmounted)
next
  fix msg v e'
  assume "Post e msg v = Inr e'"
  from Post_Inr[OF this] obtain new where
    new: "events e' = events e @ new" "\<forall>ev\<in>set new. Mounted (nodes e (source ev))"
      "calls e' = calls e"
    by blast
  from new(2) assms have "filter (\<lambda>ev. source ev = n) new = []"
    by (auto simp: filter_empty_conv)
  with new show "filter (\<lambda>ev. source ev = n) (events e') = filter (\<lambda>ev. source ev = n) (events e)"
    by simp
  from new show "calls e' = calls e" by simp
qed

theorem unmounted_source_is_skipped_witness:
  "\<not> Mounted (nodes busEngine 5)
   \<and> Dispatch busEngine (Some 5) (UserFunc 1) = Inr busEngine
   \<and> Defer busEngine (Some 5) (UserFunc 1) = Inr busEngine
   \<and> execEvent quiet busEngine \<lparr>source = 5, deferable = False, ev_function = UserFunc 1\<rparr> = Inr busEngine
   \<and> deferLoop quiet [\<lparr>source = 5, deferable = True, ev_function = UserFunc 1\<rparr>] busEngine = Inr busEngine
   \<and> filter (\<lambda>ev. source ev = 5)
        (events (busEngine\<lparr>events := [\<lparr>source = 3, deferable = False, ev_function = PostFunc handlerA 9\<rparr>],
              messages := [''x'' \<mapsto> [((3, 1), \<lparr>src = 3, mh_function = handlerA\<rparr>)]]\<rparr>)) = []"
proof -
  have u: "\<not> Mounted (nodes busEngine 5)"
    by (simp add: example_defs)
  note t = unmounted_source_is_skipped [OF u, of "UserFunc 1" quiet _ "[]"]
  have p: "Post busEngine ''x'' 9 =
       Inr (busEngine\<lparr>events := [\<lparr>source = 3, deferable = False, ev_function = PostFunc handlerA 9\<rparr>],
              messages := [''x'' \<mapsto> [((3, 1), \<lparr>src = 3, mh_function = handlerA\<rparr>)]]\<rparr>)"
    by (simp add: Post_def Dispatch_def send_def deleteHandler_def eventBufferSize_def example_defs)
  have e: "filter (\<lambda>ev. source ev = 5) (events busEngine) = []"
    by (simp add: example_defs)
  from t p have "filter (\<lambda>ev. source ev = 5)
        (events (busEngine\<lparr>events := [\<lparr>source = 3, deferable = False, ev_function = PostFunc handlerA 9\<rparr>],
              messages := [''x'' \<mapsto> [((3, 1), \<lparr>src = 3, mh_function = handlerA\<rparr>)]]\<rparr>))
      = filter (\<lambda>ev. source ev = 5) (events busEngine)"
    by blast
  with e have f: "filter (\<lambda>ev. source ev = 5)
        (events (busEngine\<lparr>events := [\<lparr>source = 3, deferable = False, ev_function = PostFunc handlerA 9\<rparr>],
              messages := [''x'' \<mapsto> [((3, 1), \<lparr>src = 3, mh_function = handlerA\<rparr>)]]\<rparr>)) = []"
    by (simp only:)
  have dl: "deferLoop quiet [\<lparr>source = 5, deferable = True, ev_function = UserFunc 1\<rparr>] busEngine = Inr busEngine"
    using unmounted_source_is_skipped [OF u, of "UserFunc 1" quiet True "[]"] by simp
  from u t dl f show ?thesis by blast
qed

section \<open>Registering a handler\<close>

text \<open>The entries of a topic, and the invariant of the registry: one entry per key.\<close>

definition entries :: "engine \<Rightarrow> string \<Rightarrow> (key \<times> msgHandler) list" where
  "entries e msg = (case messages e msg of None \<Rightarrow> [] | Some handlers \<Rightarrow> handlers)"

definition oneEntryPerKey :: "engine \<Rightarrow> bool" where
  "oneEntryPerKey e = (\<forall>msg. distinct (map fst (entries e msg)))"

lemma entries_Handle:
  "entries (Handle e msg s h) t =
     (if t = msg then AList.update (s, codeptr h) \<lparr>src = s, mh_function = h\<rparr> (entries e msg)
      else entries e t)"
  by (simp add: entries_def Handle_def)

lemma Handle_keeps_oneEntryPerKey: "oneEntryPerKey e \<Longrightarrow> oneEntryPerKey (Handle e msg s h)"
  by (simp add: oneEntryPerKey_def entries_Handle distinct_update)

lemma deleteHandler_keeps_oneEntryPerKey:
  "oneEntryPerKey e \<Longrightarrow> oneEntryPerKey (deleteHandler e msg k)"
  by (auto simp: oneEntryPerKey_def entries_def deleteHandler_def distinct_delete
      split: option.splits)

lemma update_key_once:
  "distinct (map fst al) \<Longrightarrow> length (filter (\<lambda>p. fst p = k) (AList.update k v al)) = 1"
proof (induction al)
  case Nil
  then show ?case by simp
next
  case (Cons p al)
  show ?case
  proof (cases "fst p = k")
    case True
    with Cons.prems have "k \<notin> fst ` set al" by auto
    then have "filter (\<lambda>q. fst q = k) al = []"
      by (auto simp: filter_empty_conv)
    with True show ?thesis by simp
  next
    case False
    with Cons show ?thesis by simp
  qed
qed

lemma length_update_value:
  "length (AList.update k v al) = length (AList.update k v' al)"
  by (induction al) auto

text \<open>
  C8. In a registry with one entry per key, registering the subscriber \<open>s\<close> with a handler
  and then again with a handler of the same identity (the same code pointer, whatever it
  captured) leaves what the second registration alone leaves: the topic holds exactly one
  entry under the key of \<open>(s, handler)\<close>, that entry carries the second handler, and the
  second registration did not add an entry.
\<close>

theorem Handle_is_upsert:
  assumes "oneEntryPerKey e"
    and "codeptr h' = codeptr h"
  shows "Handle (Handle e msg s h) msg s h' = Handle e msg s h'
       \<and> length (filter (\<lambda>p. fst p = (s, codeptr h))
                   (entries (Handle (Handle e msg s h) msg s h') msg)) = 1
       \<and> map_of (entries (Handle (Handle e msg s h) msg s h') msg) (s, codeptr h)
           = Some \<lparr>src = s, mh_function = h'\<rparr>
       \<and> length (entries (Handle (Handle e msg s h) msg s h') msg)
           = length (entries (Handle e msg s h) msg)"
proof (intro conjI)
  show "Handle (Handle e msg s h) msg s h' = Handle e msg s h'"
    using assms(2) by (simp add: Handle_def)
  have d: "distinct (map fst (entries e msg))"
    using assms(1) by (simp add: oneEntryPerKey_def)
  show "length (filter (\<lambda>p. fst p = (s, codeptr h))
                   (entries (Handle (Handle e msg s h) msg s h') msg)) = 1"
    using update_key_once[OF d] assms(2) by (simp add: entries_Handle)
  show "map_of (entries (Handle (Handle e msg s h) msg s h') msg) (s, codeptr h)
           = Some \<lparr>src = s, mh_function = h'\<rparr>"
    using assms(2) by (simp add: entries_Handle update_conv')
  have "entries (Handle (Handle e msg s h) msg s h') msg
      = AList.update (s, codeptr h) \<lparr>src = s, mh_function = h'\<rparr> (entries e msg)"
    using assms(2) by (simp add: entries_Handle)
  moreover have "entries (Handle e msg s h) msg
      = AList.update (s, codeptr h) \<lparr>src = s, mh_function = h\<rparr> (entries e msg)"
    by (simp add: entries_Handle)
  ultimately show "length (entries (Handle (Handle e msg s h) msg s h') msg)
           = length (entries (Handle e msg s h) msg)"
    by (simp only: length_update_value[of "(s, codeptr h)" "\<lparr>src = s, mh_function = h'\<rparr>"
          "entries e msg" "\<lparr>src = s, mh_function = h\<rparr>"])
qed

theorem Handle_is_upsert_witness:
  "oneEntryPerKey busEngine
   \<and> codeptr handlerB = codeptr handlerA
   \<and> entries (Handle (Handle busEngine ''x'' 3 handlerA) ''x'' 3 handlerB) ''x''
       = [((5, 1), \<lparr>src = 5, mh_function = handlerA\<rparr>), ((3, 1), \<lparr>src = 3, mh_function = handlerB\<rparr>)]
   \<and> length (filter (\<lambda>p. fst p = (3, codeptr handlerA))
                   (entries (Handle (Handle busEngine ''x'' 3 handlerA) ''x'' 3 handlerB) ''x'')) = 1"
proof -
  have o: "oneEntryPerKey busEngine"
    by (simp add: oneEntryPerKey_def entries_def busEngine_def exampleEngine_def)
  have c: "codeptr handlerB = codeptr handlerA"
    by (simp add: handlerA_def handlerB_def)
  have v: "entries (Handle (Handle busEngine ''x'' 3 handlerA) ''x'' 3 handlerB) ''x''
       = [((5, 1), \<lparr>src = 5, mh_function = handlerA\<rparr>), ((3, 1), \<lparr>src = 3, mh_function = handlerB\<rparr>)]"
  proof -
    have eb: "entries busEngine ''x''
        = [((5, 1), \<lparr>src = 5, mh_function = handlerA\<rparr>), ((3, 1), \<lparr>src = 3, mh_function = handlerA\<rparr>)]"
      by (simp add: entries_def busEngine_def exampleEngine_def)
    have cp: "codeptr handlerA = 1" "codeptr handlerB = 1"
      by (simp_all add: handlerA_def handlerB_def)
    show ?thesis by (simp add: entries_Handle eb cp)
  qed
  from Handle_is_upsert [OF o c, of "''x''" 3] o c v show ?thesis
    by blast
qed

section \<open>Failures of the tree operations\<close>

text \<open>The tags a panic value carries.\<close>

fun diagnostics :: "stop \<Rightarrow> (string \<times> nat) list" where
  "diagnostics (Failed m tags err) = tags"
| "diagnostics s = []"

text \<open>Callbacks whose tree operations fail, and an engine with component 1 scheduled.\<close>

definition failingRoot :: ext where
  "failingRoot = quiet\<lparr>updateRoot := (\<lambda>c e. (Some 7, e))\<rparr>"

definition failingReplace :: ext where
  "failingReplace = quiet\<lparr>replaceChildAt := (\<lambda>b i n e. (Some 3, e))\<rparr>"

definition failingUpdate :: ext where
  "failingUpdate = quiet\<lparr>update := (\<lambda>c n e. (Some 4, e))\<rparr>"

definition failingBoth :: ext where
  "failingBoth = quiet\<lparr>update := (\<lambda>c n e. (Some 4, e)), isErrReplace := (\<lambda>x. x = 4),
                        replaceChildAt := (\<lambda>b i n e. (Some 5, e))\<rparr>"

definition pendingEngine :: engine where
  "pendingEngine = exampleEngine\<lparr>updates := {1}, updateQueue := [\<lparr>compo = 1, priority = 1\<rparr>]\<rparr>"

lemma updateLoop_Inl: "updateLoop X q e = Inl s \<Longrightarrow> \<exists>err. s = Rethrown err"
proof (induction q arbitrary: e)
  case Nil
  then show ?case by simp
next
  case (Cons ud q)
  then show ?case
    by (auto split: if_splits prod.splits option.splits)
qed

lemma updateComponents_Inl: "updateComponents X e = Inl s \<Longrightarrow> \<exists>err. s = Rethrown err"
  by (auto simp: updateComponents_def split: if_splits sum.splits dest: updateLoop_Inl)

theorem rerender_failure_not_tagged:
  "updateComponents failingRoot pendingEngine = Inl (Rethrown 7)
   \<and> diagnostics (Rethrown 7) = []"
  by (simp add: updateComponents_def failingRoot_def pendingEngine_def example_defs)

text \<open>
  C9, as the code has it. In the closure that \<^verbatim>\<open>Mount\<close> dispatches, a failure of
  \<^verbatim>\<open>replaceChildAt\<close> (at the first mount, or after \<^verbatim>\<open>update\<close> asked for a replacement) and a
  failure of \<^verbatim>\<open>update\<close> that does not ask for a replacement end in a panic whose value
  wraps the cause and carries four tags read at that point: the number of buffered events,
  the capacity of the channel, the size of the pending set and the length of the batch
  list. A failure of \<^verbatim>\<open>updateRoot\<close> in \<^verbatim>\<open>updateComponents\<close> ends in a panic whose value is the
  error as \<^verbatim>\<open>updateRoot\<close> returned it, and every panic of \<^verbatim>\<open>updateComponents\<close> is of that
  kind: the engine attaches no tag to it.
\<close>

theorem structural_failure_panics:
  "(\<not> isMountedOnce e \<and> Body e = Some b \<and> replaceChildAt X b 0 n e = (Some err, e1)
      \<longrightarrow> mountBody X n e = Inl (mountFailed e1 err))
   \<and> (isMountedOnce e \<and> Body e = Some b \<and> children (nodes e b) = c # cs
        \<and> update X c n e = (Some err, e1) \<and> \<not> isErrReplace X err
      \<longrightarrow> mountBody X n e = Inl (mountFailed e1 err))
   \<and> (isMountedOnce e \<and> Body e = Some b \<and> children (nodes e b) = c # cs
        \<and> update X c n e = (Some err, e1) \<and> isErrReplace X err
        \<and> Body e1 = Some b1 \<and> replaceChildAt X b1 0 n e1 = (Some err2, e2)
      \<longrightarrow> mountBody X n e = Inl (mountFailed e2 err2))
   \<and> diagnostics (mountFailed e1 err) =
        [(''events-count'', length (events e1)),
         (''events-capacity'', 4096),
         (''updates-count'', card (updates e1)),
         (''updates-queue-len'', length (updateQueue e1))]
   \<and> (Mounted (nodes e (compo ud)) \<and> compo ud \<in> updates e
        \<and> updateRoot X (compo ud) e = (Some err, e1)
      \<longrightarrow> updateLoop X (ud # uds) e = Inl (Rethrown err))
   \<and> (\<forall>s. updateComponents X e = Inl s \<longrightarrow> (\<exists>x. s = Rethrown x) \<and> diagnostics s = [])"
proof (intro conjI impI allI)
  show "diagnostics (mountFailed e1 err) =
        [(''events-count'', length (events e1)),
         (''events-capacity'', 4096),
         (''updates-count'', card (updates e1)),
         (''updates-queue-len'', length (updateQueue e1))]"
    by (simp add: mountFailed_def eventBufferSize_def)
next
  fix s
  assume "updateComponents X e = Inl s"
  then obtain x where "s = Rethrown x"
    using updateComponents_Inl by blast
  then show "\<exists>x. s = Rethrown x" and "diagnostics s = []"
    by simp_all
qed (simp_all add: mountBody_def)

theorem structural_failure_panics_witness:
  "mountBody failingReplace 7 exampleEngine =
     Inl (Failed ''mounting ui element failed''
           [(''events-count'', 0), (''events-capacity'', 4096),
            (''updates-count'', 0), (''updates-queue-len'', 0)] 3)
   \<and> mountBody failingUpdate 7 (pendingEngine\<lparr>isMountedOnce := True\<rparr>) =
     Inl (Failed ''mounting ui element failed''
           [(''events-count'', 0), (''events-capacity'', 4096),
            (''updates-count'', 1), (''updates-queue-len'', 1)] 4)
   \<and> mountBody failingBoth 7 (pendingEngine\<lparr>isMountedOnce := True\<rparr>) =
     Inl (Failed ''mounting ui element failed''
           [(''events-count'', 0), (''events-capacity'', 4096),
            (''updates-count'', 1), (''updates-queue-len'', 1)] 5)
   \<and> updateLoop failingRoot [\<lparr>compo = 1, priority = 1\<rparr>] pendingEngine = Inl (Rethrown 7)"
proof -
  let ?p = "pendingEngine\<lparr>isMountedOnce := True\<rparr>"
  have a: "\<not> isMountedOnce exampleEngine \<and> Body exampleEngine = Some 0
      \<and> replaceChildAt failingReplace 0 0 7 exampleEngine = (Some 3, exampleEngine)"
    by (simp add: failingReplace_def example_defs)
  have b: "isMountedOnce ?p \<and> Body ?p = Some 0 \<and> children (nodes ?p 0) = 7 # []
      \<and> update failingUpdate 7 7 ?p = (Some 4, ?p) \<and> \<not> isErrReplace failingUpdate 4"
    by (simp add: failingUpdate_def pendingEngine_def example_defs)
  have c: "isMountedOnce ?p \<and> Body ?p = Some 0 \<and> children (nodes ?p 0) = 7 # []
      \<and> update failingBoth 7 7 ?p = (Some 4, ?p) \<and> isErrReplace failingBoth 4
      \<and> Body ?p = Some 0 \<and> replaceChildAt failingBoth 0 0 7 ?p = (Some 5, ?p)"
    by (simp add: failingBoth_def pendingEngine_def example_defs)
  have d: "Mounted (nodes pendingEngine (compo \<lparr>compo = 1, priority = 1\<rparr>))
      \<and> compo \<lparr>compo = 1, priority = 1\<rparr> \<in> updates pendingEngine
      \<and> updateRoot failingRoot (compo \<lparr>compo = 1, priority = 1\<rparr>) pendingEngine = (Some 7, pendingEngine)"
    by (simp add: failingRoot_def pendingEngine_def example_defs)
  have t1: "mountFailed exampleEngine 3 = Failed ''mounting ui element failed''
           [(''events-count'', 0), (''events-capacity'', 4096),
            (''updates-count'', 0), (''updates-queue-len'', 0)] 3"
    by (simp add: mountFailed_def eventBufferSize_def example_defs)
  have t2: "\<And>x. mountFailed ?p x = Failed ''mounting ui element failed''
           [(''events-count'', 0), (''events-capacity'', 4096),
            (''updates-count'', 1), (''updates-queue-len'', 1)] x"
    by (simp add: mountFailed_def eventBufferSize_def pendingEngine_def example_defs)
  have "mountBody failingReplace 7 exampleEngine = Inl (mountFailed exampleEngine 3)"
    using structural_failure_panics [of exampleEngine 0 failingReplace 7 3 exampleEngine] a by blast
  moreover have "mountBody failingUpdate 7 ?p = Inl (mountFailed ?p 4)"
    using structural_failure_panics [of ?p 0 failingUpdate 7 4 ?p 7 "[]"] b by blast
  moreover have "mountBody failingBoth 7 ?p = Inl (mountFailed ?p 5)"
    using structural_failure_panics [of ?p 0 failingBoth 7 4 ?p 7 "[]" 0 5 ?p] c by blast
  moreover have "updateLoop failingRoot [\<lparr>compo = 1, priority = 1\<rparr>] pendingEngine = Inl (Rethrown 7)"
    using structural_failure_panics [of pendingEngine _ failingRoot _ 7 pendingEngine _ _ _ _ _
        "\<lparr>compo = 1, priority = 1\<rparr>" "[]"] d by blast
  ultimately show ?thesis
    by (simp only: t1 t2 simp_thms)
qed

section \<open>The way up to the root\<close>

text \<open>
  \<open>ancestors t n ns\<close>: following \<^verbatim>\<open>parent()\<close> from \<open>n\<close> reaches a node without parent, and
  \<open>ns\<close> lists the nodes on the way, \<open>n\<close> first.
\<close>

inductive ancestors :: "(nid \<Rightarrow> ui) \<Rightarrow> nid option \<Rightarrow> nid list \<Rightarrow> bool" for t where
  top: "ancestors t None []"
| up: "ancestors t (parent (t n)) ns \<Longrightarrow> ancestors t (Some n) (n # ns)"

code_pred ancestors .

text \<open>The components among some nodes, and the event \<^verbatim>\<open>Dispatch(compo, nil)\<close> sends.\<close>

definition composersOf :: "(nid \<Rightarrow> ui) \<Rightarrow> nid list \<Rightarrow> nid list" where
  "composersOf t ns = filter (\<lambda>n. isComposer (t n)) ns"

definition updateEvent :: "nid \<Rightarrow> event" where
  "updateEvent c = \<lparr>source = c, deferable = False, ev_function = NilFunc\<rparr>"

definition mountedOf :: "(nid \<Rightarrow> ui) \<Rightarrow> nid list \<Rightarrow> nid list" where
  "mountedOf t ns = filter (\<lambda>n. Mounted (t n)) ns"

section \<open>Emit\<close>

lemma emitLoop_run:
  assumes "ancestors t n ns"
    and "nodes e = t"
    and "length (events e)
          + length (mountedOf t (if k = 0 then tl (composersOf t ns) else composersOf t ns))
          \<le> eventBufferSize"
  shows "emitLoop e n k =
     Some (Inr (e\<lparr>events := events e @
        map updateEvent (mountedOf t (if k = 0 then tl (composersOf t ns) else composersOf t ns))\<rparr>))"
  using assms
proof (induction arbitrary: e k rule: ancestors.induct)
  case top
  show ?case
    by (subst emitLoop.simps) (simp add: composersOf_def mountedOf_def)
next
  case (up m ns)
  show ?case
  proof (cases "isComposer (t m)")
    case False
    then have cs: "composersOf t (m # ns) = composersOf t ns"
      by (simp add: composersOf_def)
    have "emitLoop e (Some m) k = emitLoop e (parent (t m)) k"
      using False up.prems(1) by (subst emitLoop.simps) simp
    also have "\<dots> = Some (Inr (e\<lparr>events := events e @
        map updateEvent (mountedOf t (if k = 0 then tl (composersOf t ns) else composersOf t ns))\<rparr>))"
      using up.prems(1) up.prems(2)[unfolded cs] by (intro up.IH) simp_all
    finally show ?thesis by (simp only: cs)
  next
    case True
    then have cs: "composersOf t (m # ns) = m # composersOf t ns"
      by (simp add: composersOf_def)
    show ?thesis
    proof (cases "k = 0")
      case k0: True
      have "emitLoop e (Some m) k = emitLoop e (parent (t m)) 1"
        using True k0 up.prems(1) by (subst emitLoop.simps) simp
      also have "\<dots> = Some (Inr (e\<lparr>events := events e @
          map updateEvent (mountedOf t (if (1::nat) = 0 then tl (composersOf t ns) else composersOf t ns))\<rparr>))"
        using up.prems(1) up.prems(2)[unfolded cs] k0 by (intro up.IH) simp_all
      finally show ?thesis using k0 by (simp add: cs)
    next
      case kpos: False
      show ?thesis
      proof (cases "Mounted (t m)")
        case mounted: True
        let ?e1 = "e\<lparr>events := events e @ [updateEvent m]\<rparr>"
        from up.prems(2)[unfolded cs] kpos mounted have room: "length (events e) < eventBufferSize"
          by (simp add: mountedOf_def)
        have d: "Dispatch e (Some m) NilFunc = Inr ?e1"
          using mounted up.prems(1) room by (simp add: Dispatch_mounted updateEvent_def)
        have "emitLoop e (Some m) k = emitLoop ?e1 (parent (t m)) (k + 1)"
          using True kpos up.prems(1) d by (subst emitLoop.simps) simp
        also have "\<dots> = Some (Inr (?e1\<lparr>events := events ?e1 @
            map updateEvent (mountedOf t (if k + 1 = 0 then tl (composersOf t ns) else composersOf t ns))\<rparr>))"
          using up.prems(1) up.prems(2)[unfolded cs] kpos mounted
          by (intro up.IH) (simp_all add: mountedOf_def)
        finally show ?thesis using kpos mounted by (simp add: cs mountedOf_def)
      next
        case unmounted: False
        have d: "Dispatch e (Some m) NilFunc = Inr e"
          using unmounted up.prems(1) by (simp add: Dispatch_unmounted)
        have "emitLoop e (Some m) k = emitLoop e (parent (t m)) (k + 1)"
          using True kpos up.prems(1) d by (subst emitLoop.simps) simp
        also have "\<dots> = Some (Inr (e\<lparr>events := events e @
            map updateEvent (mountedOf t (if k + 1 = 0 then tl (composersOf t ns) else composersOf t ns))\<rparr>))"
          using up.prems(1) up.prems(2)[unfolded cs] kpos unmounted
          by (intro up.IH) (simp_all add: mountedOf_def)
        finally show ?thesis using kpos unmounted by (simp add: cs mountedOf_def)
      qed
    qed
  qed
qed

text \<open>
  C7. \<^verbatim>\<open>Emit\<close> with an unmounted source returns the engine unchanged. With a mounted source it
  runs \<open>fn\<close> at once (the state \<open>e1\<close> is what \<open>fn\<close> leaves, or the state itself when \<open>fn\<close> is
  nil), then goes up from the source to the root: of the components on the way, the first
  gets no event, and each later one that is mounted gets one event with a nil function
  appended to the channel, in the order of the way up (the channel having room). Such an
  event makes no call when it is executed.
\<close>

theorem Emit_skips_first_composer:
  "(\<not> Mounted (nodes e n) \<longrightarrow> Emit e (Some n) fn = Some (Inr e))
   \<and> (Mounted (nodes e n)
        \<and> (case fn of None \<Rightarrow> Inr e | Some f \<Rightarrow> f e) = Inr e1
        \<and> ancestors (nodes e1) (Some n) ns
        \<and> length (events e1) + length (mountedOf (nodes e1) (tl (composersOf (nodes e1) ns)))
             \<le> eventBufferSize
      \<longrightarrow> Emit e (Some n) fn =
            Some (Inr (e1\<lparr>events := events e1 @
               map updateEvent (mountedOf (nodes e1) (tl (composersOf (nodes e1) ns)))\<rparr>)))
   \<and> execEvent X e (updateEvent c) = Inr e"
proof (intro conjI impI)
  assume "\<not> Mounted (nodes e n)"
  then show "Emit e (Some n) fn = Some (Inr e)"
    by (simp add: Emit_def)
next
  assume h: "Mounted (nodes e n)
        \<and> (case fn of None \<Rightarrow> Inr e | Some f \<Rightarrow> f e) = Inr e1
        \<and> ancestors (nodes e1) (Some n) ns
        \<and> length (events e1) + length (mountedOf (nodes e1) (tl (composersOf (nodes e1) ns)))
             \<le> eventBufferSize"
  then have "Emit e (Some n) fn = emitLoop e1 (Some n) 0"
    by (simp add: Emit_def)
  also have "\<dots> = Some (Inr (e1\<lparr>events := events e1 @
      map updateEvent (mountedOf (nodes e1)
        (if (0::nat) = 0 then tl (composersOf (nodes e1) ns) else composersOf (nodes e1) ns))\<rparr>))"
    using h by (intro emitLoop_run) simp_all
  finally show "Emit e (Some n) fn =
            Some (Inr (e1\<lparr>events := events e1 @
               map updateEvent (mountedOf (nodes e1) (tl (composersOf (nodes e1) ns)))\<rparr>))"
    by simp
next
  show "execEvent X e (updateEvent c) = Inr e"
    by (simp add: execEvent_def updateEvent_def)
qed

inductive_simps ancestors_Some: "ancestors t (Some n) ns"

inductive_simps ancestors_None: "ancestors t None ns"

text \<open>A \<^verbatim>\<open>func()\<close> that unmounts the element 7.\<close>

definition unmount7 :: "engine \<Rightarrow> stop + engine" where
  "unmount7 e = Inr (e\<lparr>nodes := (nodes e)(7 := mk (Some 0) False False [])\<rparr>)"

theorem Emit_skips_first_composer_witness:
  "Emit exampleEngine (Some 5) (Some unmount7) = Some (Inr exampleEngine)
   \<and> Emit exampleEngine (Some 4) (Some unmount7) =
       Some (Inr (exampleEngine\<lparr>nodes := (nodes exampleEngine)(7 := mk (Some 0) False False []),
                    events := [updateEvent 2, updateEvent 1]\<rparr>))"
proof -
  let ?e1 = "exampleEngine\<lparr>nodes := (nodes exampleEngine)(7 := mk (Some 0) False False [])\<rparr>"
  have u: "\<not> Mounted (nodes exampleEngine 5)"
    by (simp add: example_defs)
  have a: "Emit exampleEngine (Some 5) (Some unmount7) = Some (Inr exampleEngine)"
    using Emit_skips_first_composer [of exampleEngine 5 "Some unmount7"] u by blast
  have m: "Mounted (nodes exampleEngine 4)"
    by (simp add: example_defs)
  have f: "(case Some unmount7 of None \<Rightarrow> Inr exampleEngine | Some f \<Rightarrow> f exampleEngine) = Inr ?e1"
    by (simp add: unmount7_def)
  have p: "ancestors (nodes ?e1) (Some 4) [4, 3, 2, 1]"
    by (simp add: ancestors_Some ancestors_None example_defs)
  have c: "mountedOf (nodes ?e1) (tl (composersOf (nodes ?e1) [4, 3, 2, 1])) = [2, 1]"
    by (simp add: mountedOf_def composersOf_def example_defs)
  have r: "length (events ?e1) + length (mountedOf (nodes ?e1) (tl (composersOf (nodes ?e1) [4, 3, 2, 1])))
             \<le> eventBufferSize"
    unfolding c by (simp add: example_defs eventBufferSize_def)
  have "Emit exampleEngine (Some 4) (Some unmount7) =
            Some (Inr (?e1\<lparr>events := events ?e1 @
               map updateEvent (mountedOf (nodes ?e1) (tl (composersOf (nodes ?e1) [4, 3, 2, 1])))\<rparr>))"
    using Emit_skips_first_composer [of exampleEngine 4 "Some unmount7" ?e1 "[4, 3, 2, 1]"] m f p r
    by blast
  then have b: "Emit exampleEngine (Some 4) (Some unmount7) =
       Some (Inr (exampleEngine\<lparr>nodes := (nodes exampleEngine)(7 := mk (Some 0) False False []),
                    events := [updateEvent 2, updateEvent 1]\<rparr>))"
    unfolding c by (simp add: exampleEngine_def)
  from a b show ?thesis by blast
qed

section \<open>Scheduling a component\<close>

lemma ancestors_unique: "ancestors t x ns \<Longrightarrow> ancestors t x ms \<Longrightarrow> ns = ms"
proof (induction arbitrary: ms rule: ancestors.induct)
  case top
  then show ?case by (simp add: ancestors_None)
next
  case (up n ns)
  from up.prems obtain ms' where "ms = n # ms'" "ancestors t (parent (t n)) ms'"
    by (auto simp: ancestors_Some)
  with up.IH show ?case by simp
qed

text \<open>The nearest component at or above \<open>n\<close>, and the number of parent hops from a node to the root.\<close>

definition nearestComposer :: "(nid \<Rightarrow> ui) \<Rightarrow> nid \<Rightarrow> nid \<Rightarrow> bool" where
  "nearestComposer t n c = (\<exists>ns cs. ancestors t (Some n) ns \<and> composersOf t ns = c # cs)"

definition hopsToRoot :: "(nid \<Rightarrow> ui) \<Rightarrow> nid \<Rightarrow> nat \<Rightarrow> bool" where
  "hopsToRoot t c k = (\<exists>ns. ancestors t (Some c) ns \<and> length ns = Suc k)"

lemma ancestors_dropWhile:
  assumes "ancestors t x ns" and "composersOf t ns = c # cs"
  shows "ancestors t (Some c) (dropWhile (\<lambda>m. \<not> isComposer (t m)) ns)"
  using assms
proof (induction rule: ancestors.induct)
  case top
  then show ?case by (simp add: composersOf_def)
next
  case (up n ns)
  show ?case
  proof (cases "isComposer (t n)")
    case True
    with up.prems have "c = n" by (simp add: composersOf_def)
    with True up.hyps show ?thesis by (simp add: ancestors.up)
  next
    case False
    with up show ?thesis by (simp add: composersOf_def)
  qed
qed

text \<open>What the loop returns on a parent chain that ends.\<close>

lemma scheduleLoop_found:
  assumes "ancestors t x ns" and "x = Some n" and "nodes e = t"
  shows "scheduleLoop e n (Some c) depth = Some (AtRoot (Some c) (depth + (length ns - 1)))"
  using assms
proof (induction arbitrary: n depth rule: ancestors.induct)
  case top
  then show ?case by simp
next
  case (up m ns)
  then have n: "n = m" by simp
  show ?case
  proof (cases "parent (t m)")
    case None
    with up.hyps have "ns = []" by (simp add: ancestors_None)
    with None up.prems n show ?thesis
      by (subst scheduleLoop.simps) simp
  next
    case (Some p)
    with up.hyps have "ns \<noteq> []" by (auto simp: ancestors_Some)
    moreover have "scheduleLoop e p (Some c) (depth + 1) = Some (AtRoot (Some c) (depth + 1 + (length ns - 1)))"
      using Some up.prems by (intro up.IH) simp_all
    ultimately show ?thesis using Some up.prems n
      by (subst scheduleLoop.simps) (cases ns; simp)
  qed
qed

lemma scheduleLoop_search:
  assumes "ancestors t x ns" and "x = Some n" and "nodes e = t"
  shows "scheduleLoop e n None depth =
     Some (case composersOf t ns of
             [] \<Rightarrow> AtRoot None depth
           | c # cs \<Rightarrow>
               if c \<in> updates e then IsScheduled
               else AtRoot (Some c)
                      (depth + (length (dropWhile (\<lambda>m. \<not> isComposer (t m)) ns) - 1)))"
  using assms
proof (induction arbitrary: n depth rule: ancestors.induct)
  case top
  then show ?case by simp
next
  case (up m ns)
  then have n: "n = m" by simp
  show ?case
  proof (cases "isComposer (t m)")
    case True
    then have cs: "composersOf t (m # ns) = m # composersOf t ns"
      by (simp add: composersOf_def)
    show ?thesis
    proof (cases "m \<in> updates e")
      case True
      with \<open>isComposer (t m)\<close> up.prems n cs show ?thesis
        by (subst scheduleLoop.simps) simp
    next
      case False
      show ?thesis
      proof (cases "parent (t m)")
        case None
        with up.hyps have "ns = []" by (simp add: ancestors_None)
        with None False \<open>isComposer (t m)\<close> up.prems n cs show ?thesis
          by (subst scheduleLoop.simps) simp
      next
        case (Some p)
        have step: "scheduleLoop e m None depth = scheduleLoop e p (Some m) (depth + 1)"
          using Some False \<open>isComposer (t m)\<close> up.prems(2)
          by (subst scheduleLoop.simps) simp
        have rest: "scheduleLoop e p (Some m) (depth + 1) = Some (AtRoot (Some m) (depth + 1 + (length ns - 1)))"
          using Some up.hyps up.prems by (intro scheduleLoop_found[where t = t and x = "Some p"]) simp_all
        from Some up.hyps have "ns \<noteq> []" by (auto simp: ancestors_Some)
        then have arith: "depth + 1 + (length ns - 1) = depth + length ns"
          by (cases ns) simp_all
        have dw: "dropWhile (\<lambda>m. \<not> isComposer (t m)) (m # ns) = m # ns"
          using \<open>isComposer (t m)\<close> by simp
        show ?thesis
          unfolding n step rest arith cs dw using False by simp
      qed
    qed
  next
    case False
    then have cs: "composersOf t (m # ns) = composersOf t ns"
      by (simp add: composersOf_def)
    show ?thesis
    proof (cases "parent (t m)")
      case None
      with up.hyps have "ns = []" by (simp add: ancestors_None)
      with None False up.prems n show ?thesis
        by (subst scheduleLoop.simps) (simp add: composersOf_def)
    next
      case (Some p)
      have "scheduleLoop e p None depth =
         Some (case composersOf t ns of
             [] \<Rightarrow> AtRoot None depth
           | c # cs \<Rightarrow>
               if c \<in> updates e then IsScheduled
               else AtRoot (Some c)
                      (depth + (length (dropWhile (\<lambda>m. \<not> isComposer (t m)) ns) - 1)))"
        using Some up.prems by (intro up.IH) simp_all
      moreover have "scheduleLoop e m None depth = scheduleLoop e p None depth"
        using Some False up.prems(2) by (subst scheduleLoop.simps) simp
      moreover have "dropWhile (\<lambda>m. \<not> isComposer (t m)) (m # ns)
          = dropWhile (\<lambda>m. \<not> isComposer (t m)) ns"
        using False by simp
      ultimately show ?thesis
        unfolding n cs by (simp only:)
    qed
  qed
qed

lemma scheduleComponentUpdate_new:
  assumes "Mounted (nodes e n)"
    and "nearestComposer (nodes e) n c"
    and "hopsToRoot (nodes e) c k"
    and "c \<notin> updates e"
  shows "scheduleComponentUpdate e n =
     Some (e\<lparr>updates := insert c (updates e),
             updateQueue := updateQueue e @ [\<lparr>compo = c, priority = k + 1\<rparr>]\<rparr>)"
proof -
  from assms(2) obtain ns cs where ns: "ancestors (nodes e) (Some n) ns" "composersOf (nodes e) ns = c # cs"
    by (auto simp: nearestComposer_def)
  from assms(3) obtain ps where ps: "ancestors (nodes e) (Some c) ps" "length ps = Suc k"
    by (auto simp: hopsToRoot_def)
  from ancestors_unique[OF ancestors_dropWhile[OF ns] ps(1)] ps(2)
  have len: "length (dropWhile (\<lambda>m. \<not> isComposer (nodes e m)) ns) - 1 = k" by simp
  have "scheduleLoop e n None 0 = Some (AtRoot (Some c) k)"
    using scheduleLoop_search[OF ns(1) refl refl, of 0] ns(2) assms(4) len by simp
  with assms(1) show ?thesis
    by (simp add: scheduleComponentUpdate_def)
qed

lemma scheduleComponentUpdate_scheduled:
  assumes "nearestComposer (nodes e) n c" and "c \<in> updates e"
  shows "scheduleComponentUpdate e n = Some e"
proof -
  from assms(1) obtain ns cs where ns: "ancestors (nodes e) (Some n) ns" "composersOf (nodes e) ns = c # cs"
    by (auto simp: nearestComposer_def)
  have "scheduleLoop e n None 0 = Some IsScheduled"
    using scheduleLoop_search[OF ns(1) refl refl, of 0] ns(2) assms(2) by simp
  then show ?thesis
    by (simp add: scheduleComponentUpdate_def)
qed

section \<open>The order of the flush\<close>

text \<open>What \<^verbatim>\<open>sort.Slice\<close> with the comparison on \<^verbatim>\<open>priority\<close> guarantees: the same entries, in
  ascending order of priority.\<close>

definition sorts :: "(updateDescriptor list \<Rightarrow> updateDescriptor list) \<Rightarrow> bool" where
  "sorts f = (\<forall>d. mset (f d) = mset d \<and> sorted (map priority (f d)))"

text \<open>Successive calls of \<^verbatim>\<open>scheduleComponentUpdate\<close>.\<close>

fun scheduleAll :: "engine \<Rightarrow> nid list \<Rightarrow> engine option" where
  "scheduleAll e [] = Some e"
| "scheduleAll e (n # ns) =
     (case scheduleComponentUpdate e n of
        None \<Rightarrow> None
      | Some e1 \<Rightarrow> scheduleAll e1 ns)"

lemma sorts_sort_key: "sorts (sort_key priority)"
  by (simp add: sorts_def)



lemma calls_componentUpdated [simp]: "calls (componentUpdated e c) = calls e"
  by (simp add: componentUpdated_def)

text \<open>The re-renders of a pass are entries of the list it runs over, in the order of the list.\<close>

lemma updateLoop_calls:
  "updateLoop X q e = Inr e' \<Longrightarrow>
   \<exists>ds. subseq ds q \<and> calls e' = calls e @ map (\<lambda>d. Rerender (compo d)) ds"
proof (induction q arbitrary: e)
  case Nil
  then show ?case by simp
next
  case (Cons ud q)
  show ?case
  proof (cases "Mounted (nodes e (compo ud)) \<and> compo ud \<in> updates e")
    case False
    with Cons.prems have "updateLoop X q e = Inr e'"
      by (auto split: if_splits)
    from Cons.IH[OF this] obtain ds where "subseq ds q" "calls e' = calls e @ map (\<lambda>d. Rerender (compo d)) ds"
      by blast
    then show ?thesis by (intro exI[of _ ds]) (simp add: list_emb_Cons)
  next
    case True
    with Cons.prems obtain e1 where
      r: "updateRoot X (compo ud) e = (None, e1)"
      and l: "updateLoop X q (componentUpdated (e1\<lparr>calls := calls e @ [Rerender (compo ud)]\<rparr>) (compo ud)) = Inr e'"
      by (auto split: prod.splits option.splits)
    from Cons.IH[OF l] obtain ds where "subseq ds q"
      "calls e' = (calls e @ [Rerender (compo ud)]) @ map (\<lambda>d. Rerender (compo d)) ds"
      by auto
    then show ?thesis by (intro exI[of _ "ud # ds"]) simp
  qed
qed


text \<open>
  Re-renders that never fail and that leave the nodes of \<open>S\<close> as mounted and as pending as
  they find them.
\<close>

definition rerenderKeeps :: "ext \<Rightarrow> nid set \<Rightarrow> bool" where
  "rerenderKeeps X S =
     (\<forall>d e. fst (updateRoot X d e) = None
        \<and> (\<forall>c\<in>S. Mounted (nodes (snd (updateRoot X d e)) c) = Mounted (nodes e c)
              \<and> (c \<in> updates (snd (updateRoot X d e))) = (c \<in> updates e)))"

lemma rerenderKeeps_step:
  assumes "rerenderKeeps X S"
  obtains e1 where "updateRoot X d e = (None, e1)"
    and "\<forall>c\<in>S. Mounted (nodes e1 c) = Mounted (nodes e c)"
    and "\<forall>c\<in>S. (c \<in> updates e1) = (c \<in> updates e)"
proof -
  obtain r e1 where u: "updateRoot X d e = (r, e1)" by (cases "updateRoot X d e")
  from assms have "fst (updateRoot X d e) = None"
    and "\<forall>c\<in>S. Mounted (nodes (snd (updateRoot X d e)) c) = Mounted (nodes e c)
              \<and> (c \<in> updates (snd (updateRoot X d e))) = (c \<in> updates e)"
    unfolding rerenderKeeps_def by blast+
  with u that show ?thesis by simp
qed

lemma rerenderKeeps_mono: "rerenderKeeps X S \<Longrightarrow> T \<subseteq> S \<Longrightarrow> rerenderKeeps X T"
  unfolding rerenderKeeps_def by blast

lemma rerenderKeeps_quiet: "rerenderKeeps quiet S"
  by (simp add: rerenderKeeps_def quiet_def)





text \<open>A re-render entered in the log is a call of \<^verbatim>\<open>updateRoot\<close>: the pass goes on from the
  state that the call leaves.\<close>

lemma updateLoop_rerender:
  "Mounted (nodes e0 (compo ud)) \<Longrightarrow> compo ud \<in> updates e0 \<Longrightarrow>
   updateRoot X (compo ud) e0 = (None, e1) \<Longrightarrow>
   updateLoop X (ud # uds) e0 =
     updateLoop X uds
       (componentUpdated (e1\<lparr>calls := calls e0 @ [Rerender (compo ud)]\<rparr>) (compo ud))"
  by simp


section \<open>Scheduling the same component several times\<close>

text \<open>The pending set and the batch list agree: the batch list names each pending component
  once, and nothing else. This holds when the engine starts, and scheduling keeps it.\<close>

definition consistent :: "engine \<Rightarrow> bool" where
  "consistent e =
     (distinct (map compo (updateQueue e)) \<and> set (map compo (updateQueue e)) = updates e)"

lemma distinct_count_list: "distinct xs \<Longrightarrow> count_list xs x = (if x \<in> set xs then 1 else 0)"
  by (induction xs) auto

lemma ancestors_of_nearest:
  assumes "nearestComposer t n c"
  shows "\<exists>k. hopsToRoot t c k"
proof -
  from assms obtain ns cs where ns: "ancestors t (Some n) ns" "composersOf t ns = c # cs"
    by (auto simp: nearestComposer_def)
  from ancestors_dropWhile[OF ns] obtain ps where ps: "ancestors t (Some c) ps"
    by blast
  then have "ps \<noteq> []" by (auto simp: ancestors_Some)
  then obtain k where "length ps = Suc k" by (cases ps) auto
  with ps show ?thesis by (auto simp: hopsToRoot_def)
qed

lemma scheduleAll_noop:
  assumes "c \<in> updates e" and "\<forall>n\<in>set ns. nearestComposer (nodes e) n c"
  shows "scheduleAll e ns = Some e"
  using assms(2)
proof (induction ns)
  case Nil
  then show ?case by simp
next
  case (Cons n ns)
  then have "scheduleComponentUpdate e n = Some e"
    by (intro scheduleComponentUpdate_scheduled[OF _ assms(1)]) simp
  with Cons show ?case by simp
qed

lemma scheduleAll_same:
  assumes "consistent e"
    and "ns \<noteq> []"
    and "\<forall>n\<in>set ns. Mounted (nodes e n) \<and> nearestComposer (nodes e) n c"
  shows "\<exists>e1. scheduleAll e ns = Some e1 \<and> consistent e1 \<and> c \<in> updates e1
           \<and> count_list (map compo (updateQueue e1)) c = 1 \<and> nodes e1 = nodes e"
proof (cases "c \<in> updates e")
  case True
  with assms(3) have "scheduleAll e ns = Some e"
    by (intro scheduleAll_noop) auto
  moreover from True assms(1) have "count_list (map compo (updateQueue e)) c = 1"
    by (simp add: consistent_def distinct_count_list)
  ultimately show ?thesis using True assms(1) by simp
next
  case False
  from assms(2) obtain n ns' where ns: "ns = n # ns'" by (cases ns) auto
  with assms(3) have n: "Mounted (nodes e n)" "nearestComposer (nodes e) n c"
    by simp_all
  from ancestors_of_nearest[OF n(2)] obtain k where k: "hopsToRoot (nodes e) c k"
    by blast
  let ?e1 = "e\<lparr>updates := insert c (updates e),
                updateQueue := updateQueue e @ [\<lparr>compo = c, priority = k + 1\<rparr>]\<rparr>"
  have s1: "scheduleComponentUpdate e n = Some ?e1"
    using n k False by (rule scheduleComponentUpdate_new)
  have "scheduleAll ?e1 ns' = Some ?e1"
    using assms(3) ns by (intro scheduleAll_noop) auto
  with s1 have "scheduleAll e ns = Some ?e1"
    by (simp add: ns)
  moreover from False assms(1) have c1: "consistent ?e1"
    by (auto simp: consistent_def)
  moreover then have "count_list (map compo (updateQueue ?e1)) c = 1"
    by (simp add: consistent_def distinct_count_list del: count_list.simps)
  ultimately show ?thesis by simp
qed

text \<open>The re-renders of a pass, counted.\<close>

lemma updateLoop_count:
  "updateLoop X q e = Inr e' \<Longrightarrow>
   \<exists>new. calls e' = calls e @ new \<and> count_list new (Rerender c) \<le> count_list (map compo q) c"
proof (induction q arbitrary: e)
  case Nil
  then show ?case by simp
next
  case (Cons ud q)
  show ?case
  proof (cases "Mounted (nodes e (compo ud)) \<and> compo ud \<in> updates e")
    case False
    with Cons.prems have "updateLoop X q e = Inr e'"
      by (auto split: if_splits)
    from Cons.IH[OF this] obtain new where "calls e' = calls e @ new"
      "count_list new (Rerender c) \<le> count_list (map compo q) c"
      by blast
    then show ?thesis by (intro exI[of _ new]) simp
  next
    case True
    with Cons.prems obtain e1 where
      l: "updateLoop X q (componentUpdated (e1\<lparr>calls := calls e @ [Rerender (compo ud)]\<rparr>) (compo ud)) = Inr e'"
      by (auto split: prod.splits option.splits)
    from Cons.IH[OF l] obtain new where "calls e' = (calls e @ [Rerender (compo ud)]) @ new"
      "count_list new (Rerender c) \<le> count_list (map compo q) c"
      by auto
    then show ?thesis by (intro exI[of _ "Rerender (compo ud) # new"]) simp
  qed
qed

lemma sorts_count:
  assumes "sorts f"
  shows "count_list (map compo (f d)) c = count_list (map compo d) c"
proof -
  from assms have "mset (map compo (f d)) = mset (map compo d)"
    by (simp add: sorts_def)
  then have "count (mset (map compo (f d))) c = count (mset (map compo d)) c"
    by simp
  then show ?thesis by (simp only: count_mset)
qed

lemma updateComponents_at_most_once:
  assumes "consistent e" and "sorts (sortSlice X)" and "updateComponents X e = Inr e'"
  shows "\<exists>new. calls e' = calls e @ new \<and> count_list new (Rerender c) \<le> 1"
proof (cases "updates e = {}")
  case True
  with assms(3) have "e' = e" by (simp add: updateComponents_def)
  then show ?thesis by (intro exI[of _ "[]"]) simp
next
  case False
  let ?q = "sortSlice X (updateQueue e)"
  from False assms(3) obtain e1 where l: "updateLoop X ?q (e\<lparr>updateQueue := ?q\<rparr>) = Inr e1"
    and e': "e' = e1\<lparr>updateQueue := []\<rparr>"
    by (auto simp: updateComponents_def split: sum.splits)
  from updateLoop_count[OF l, of c] obtain new where new: "calls e1 = calls e @ new"
    "count_list new (Rerender c) \<le> count_list (map compo ?q) c"
    by auto
  from assms(1) have "count_list (map compo (updateQueue e)) c \<le> 1"
    by (simp add: consistent_def distinct_count_list)
  with new(2) have "count_list new (Rerender c) \<le> 1"
    by (simp only: sorts_count[OF assms(2)])
  with new(1) e' show ?thesis by (intro exI[of _ new]) simp
qed

text \<open>With re-renders that succeed and leave \<open>c\<close> mounted and pending, a pass over a list that
  names \<open>c\<close> reaches it.\<close>

lemma updateLoop_returns:
  assumes "rerenderKeeps X S"
  shows "\<exists>e'. updateLoop X q e = Inr e'"
proof (induction q arbitrary: e)
  case Nil
  then show ?case by simp
next
  case (Cons ud q)
  from rerenderKeeps_step[OF assms, of "compo ud" e] obtain e1 where
    "updateRoot X (compo ud) e = (None, e1)" by blast
  with Cons show ?case by simp
qed

lemma updateLoop_stays_out:
  assumes "rerenderKeeps X {c}"
  shows "updateLoop X q e = Inr e' \<Longrightarrow> c \<notin> updates e \<Longrightarrow> c \<notin> updates e'"
proof (induction q arbitrary: e)
  case Nil
  then show ?case by simp
next
  case (Cons ud q)
  from rerenderKeeps_step[OF assms, of "compo ud" e] obtain e1 where
    u: "updateRoot X (compo ud) e = (None, e1)"
    and p1: "\<forall>x\<in>{c}. (x \<in> updates e1) = (x \<in> updates e)"
    by blast
  show ?case
  proof (cases "Mounted (nodes e (compo ud)) \<and> compo ud \<in> updates e")
    case False
    with Cons.prems have "updateLoop X q e = Inr e'"
      by (auto split: if_splits)
    from Cons.IH[OF this Cons.prems(2)] show ?thesis .
  next
    case True
    let ?e2 = "componentUpdated (e1\<lparr>calls := calls e @ [Rerender (compo ud)]\<rparr>) (compo ud)"
    from True Cons.prems(1) u have l: "updateLoop X q ?e2 = Inr e'" by simp
    from p1 Cons.prems(2) have "c \<notin> updates ?e2"
      by (simp add: componentUpdated_def)
    from Cons.IH[OF l this] show ?thesis .
  qed
qed

lemma updateLoop_reaches:
  assumes "rerenderKeeps X {c}"
  shows "c \<in> compo ` set q \<Longrightarrow> Mounted (nodes e c) \<Longrightarrow> c \<in> updates e \<Longrightarrow>
         \<exists>e' new. updateLoop X q e = Inr e' \<and> calls e' = calls e @ new
                  \<and> Rerender c \<in> set new \<and> c \<notin> updates e'"
proof (induction q arbitrary: e)
  case Nil
  then show ?case by simp
next
  case (Cons ud q)
  from rerenderKeeps_step[OF assms, of "compo ud" e] obtain e1 where
    u: "updateRoot X (compo ud) e = (None, e1)"
    and m1: "\<forall>x\<in>{c}. Mounted (nodes e1 x) = Mounted (nodes e x)"
    and p1: "\<forall>x\<in>{c}. (x \<in> updates e1) = (x \<in> updates e)"
    by blast
  let ?e2 = "componentUpdated (e1\<lparr>calls := calls e @ [Rerender (compo ud)]\<rparr>) (compo ud)"
  show ?case
  proof (cases "compo ud = c")
    case True
    with Cons.prems u have step: "updateLoop X (ud # q) e = updateLoop X q ?e2"
      by simp
    from updateLoop_returns[OF assms, of q ?e2] obtain e' where e': "updateLoop X q ?e2 = Inr e'"
      by blast
    from updateLoop_calls[OF e'] True
    have "\<exists>rest. calls e' = calls e @ (Rerender c # rest)"
      by auto
    then obtain rest where c: "calls e' = calls e @ (Rerender c # rest)"
      by (rule exE)
    have "c \<notin> updates ?e2" using True by (simp add: componentUpdated_def)
    from updateLoop_stays_out[OF assms e' this] have "c \<notin> updates e'" .
    with step e' c show ?thesis
      by (intro exI[of _ e'] exI[of _ "Rerender c # rest"]) simp
  next
    case False
    with Cons.prems(1) have inq: "c \<in> compo ` set q" by auto
    show ?thesis
    proof (cases "Mounted (nodes e (compo ud)) \<and> compo ud \<in> updates e")
      case skip: False
      then have step: "updateLoop X (ud # q) e = updateLoop X q e" by auto
      from Cons.IH[OF inq Cons.prems(2,3)] show ?thesis
        unfolding step .
    next
      case run: True
      with u have step: "updateLoop X (ud # q) e = updateLoop X q ?e2" by simp
      have m2: "Mounted (nodes ?e2 c)"
        using m1 Cons.prems(2) by (simp add: componentUpdated_def)
      have p2: "c \<in> updates ?e2"
        using p1 Cons.prems(3) False by (simp add: componentUpdated_def)
      from Cons.IH[OF inq m2 p2] obtain e' new where
        e': "updateLoop X q ?e2 = Inr e'" "calls e' = calls ?e2 @ new"
          "Rerender c \<in> set new" "c \<notin> updates e'"
        by blast
      then show ?thesis unfolding step
        by (intro exI[of _ e'] exI[of _ "Rerender (compo ud) # new"]) simp
    qed
  qed
qed

lemma updateComponents_reaches:
  assumes "consistent e" and "sorts (sortSlice X)" and "rerenderKeeps X {c}"
    and "c \<in> updates e" and "Mounted (nodes e c)"
  shows "\<exists>e' new. updateComponents X e = Inr e' \<and> calls e' = calls e @ new
            \<and> count_list new (Rerender c) = 1 \<and> c \<notin> updates e' \<and> updateQueue e' = []"
proof -
  let ?q = "sortSlice X (updateQueue e)"
  let ?e0 = "e\<lparr>updateQueue := ?q\<rparr>"
  from assms(2) have "set ?q = set (updateQueue e)"
    by (metis sorts_def mset_eq_setD)
  with assms(1,4) have inq: "c \<in> compo ` set ?q"
    by (auto simp: consistent_def)
  from updateLoop_reaches[OF assms(3) inq, of ?e0] assms(4,5)
  obtain e1 new where l: "updateLoop X ?q ?e0 = Inr e1" and c: "calls e1 = calls e @ new"
    and r: "Rerender c \<in> set new" and o: "c \<notin> updates e1"
    by auto
  have u: "updateComponents X e = Inr (e1\<lparr>updateQueue := []\<rparr>)"
    using l assms(4) by (auto simp: updateComponents_def)
  from updateComponents_at_most_once[OF assms(1,2) u, of c] c
  have "count_list new (Rerender c) \<le> 1" by simp
  moreover from r have "count_list new (Rerender c) \<noteq> 0"
    by (simp add: count_list_0_iff)
  ultimately have "count_list new (Rerender c) = 1" by simp
  with u c o show ?thesis
    by (intro exI[of _ "e1\<lparr>updateQueue := []\<rparr>"] exI[of _ new]) simp
qed

lemma updateLoop_passes_unmounted:
  assumes "rerenderKeeps X {c}"
  shows "\<not> Mounted (nodes e c) \<Longrightarrow>
         \<exists>e' new. updateLoop X q e = Inr e' \<and> calls e' = calls e @ new \<and> Rerender c \<notin> set new"
proof (induction q arbitrary: e)
  case Nil
  then show ?case by simp
next
  case (Cons ud q)
  from rerenderKeeps_step[OF assms, of "compo ud" e] obtain e1 where
    u: "updateRoot X (compo ud) e = (None, e1)"
    and m1: "\<forall>x\<in>{c}. Mounted (nodes e1 x) = Mounted (nodes e x)"
    by blast
  let ?e2 = "componentUpdated (e1\<lparr>calls := calls e @ [Rerender (compo ud)]\<rparr>) (compo ud)"
  show ?case
  proof (cases "Mounted (nodes e (compo ud)) \<and> compo ud \<in> updates e")
    case False
    then have step: "updateLoop X (ud # q) e = updateLoop X q e" by auto
    from Cons.IH[OF Cons.prems] show ?thesis unfolding step .
  next
    case True
    with Cons.prems have ne: "compo ud \<noteq> c" by auto
    from True u have step: "updateLoop X (ud # q) e = updateLoop X q ?e2" by simp
    have "\<not> Mounted (nodes ?e2 c)"
      using m1 Cons.prems by (simp add: componentUpdated_def)
    from Cons.IH[OF this] obtain e' new where
      "updateLoop X q ?e2 = Inr e'" "calls e' = calls ?e2 @ new" "Rerender c \<notin> set new"
      by blast
    with ne show ?thesis unfolding step
      by (intro exI[of _ e'] exI[of _ "Rerender (compo ud) # new"]) simp
  qed
qed

lemma updateComponents_passes_unmounted:
  assumes "rerenderKeeps X {c}" and "\<not> Mounted (nodes e c)"
  shows "\<exists>e' new. updateComponents X e = Inr e' \<and> calls e' = calls e @ new
            \<and> count_list new (Rerender c) = 0"
proof (cases "updates e = {}")
  case True
  then show ?thesis
    by (intro exI[of _ e] exI[of _ "[]"]) (simp add: updateComponents_def)
next
  case False
  let ?q = "sortSlice X (updateQueue e)"
  from updateLoop_passes_unmounted[OF assms(1), of "e\<lparr>updateQueue := ?q\<rparr>" ?q] assms(2)
  obtain e1 new where "updateLoop X ?q (e\<lparr>updateQueue := ?q\<rparr>) = Inr e1"
    "calls e1 = calls e @ new" "Rerender c \<notin> set new"
    by auto
  with False show ?thesis
    by (intro exI[of _ "e1\<lparr>updateQueue := []\<rparr>"] exI[of _ new])
       (simp add: updateComponents_def count_list_0_iff)
qed

text \<open>The state of the example after component 3 has been scheduled.\<close>

definition scheduled3 :: engine where
  "scheduled3 = exampleEngine\<lparr>updates := {3}, updateQueue := [\<lparr>compo = 3, priority = 3\<rparr>]\<rparr>"

text \<open>
  The claim C1 fails where the component is unmounted between its scheduling and the flush:
  scheduled three times (once through the element 4 below it, twice itself), component 3
  is in the pending set and in one batch entry, and the flush that finds it unmounted
  makes no call at all.
\<close>

theorem unmounted_before_flush_not_rerendered:
  "scheduleAll exampleEngine [4, 3, 3] = Some scheduled3
   \<and> updateComponents quiet
        (scheduled3\<lparr>nodes := (nodes scheduled3)(3 := mk (Some 2) False True [4])\<rparr>) =
       Inr (scheduled3\<lparr>nodes := (nodes scheduled3)(3 := mk (Some 2) False True [4]),
                       updateQueue := []\<rparr>)
   \<and> calls (scheduled3\<lparr>nodes := (nodes scheduled3)(3 := mk (Some 2) False True [4]),
                       updateQueue := []\<rparr>) = []"
  by (simp add: scheduleComponentUpdate_def scheduleLoop.simps updateComponents_def
        scheduled3_def example_defs)

text \<open>
  C1, as the code has it. From a state where the pending set and the batch list agree,
  one or more calls of \<^verbatim>\<open>scheduleComponentUpdate\<close> on mounted nodes whose nearest component
  is \<open>c\<close> return with \<open>c\<close> in the pending set and in exactly one entry of the batch list.
  Whatever happens to the rest of the engine until the next flush, as long as the pending
  set and the batch list are those: the flush calls the re-render of \<open>c\<close> at most once;
  with re-renders that succeed and leave \<open>c\<close> as mounted and as pending as they find it, it
  calls it exactly once when \<open>c\<close> is mounted at the flush, and then \<open>c\<close> has left the pending
  set, and not at all when \<open>c\<close> is not mounted at the flush. A re-render in the log is a
  call of \<^verbatim>\<open>updateRoot\<close> on a mounted, pending component, from whose resulting state the
  pass goes on.
\<close>

theorem scheduled_once_rerendered_at_most_once:
  assumes "consistent e"
    and "ns \<noteq> []"
    and "\<forall>n\<in>set ns. Mounted (nodes e n) \<and> nearestComposer (nodes e) n c"
  shows "(\<exists>e1. scheduleAll e ns = Some e1
          \<and> c \<in> updates e1
          \<and> count_list (map compo (updateQueue e1)) c = 1
          \<and> (\<forall>e2 e'. updates e2 = updates e1 \<and> updateQueue e2 = updateQueue e1
                \<and> sorts (sortSlice X) \<and> updateComponents X e2 = Inr e'
              \<longrightarrow> (\<exists>new. calls e' = calls e2 @ new \<and> count_list new (Rerender c) \<le> 1))
          \<and> (\<forall>e2. updates e2 = updates e1 \<and> updateQueue e2 = updateQueue e1
                \<and> sorts (sortSlice X) \<and> rerenderKeeps X {c} \<and> Mounted (nodes e2 c)
              \<longrightarrow> (\<exists>e' new. updateComponents X e2 = Inr e' \<and> calls e' = calls e2 @ new
                      \<and> count_list new (Rerender c) = 1 \<and> c \<notin> updates e'))
          \<and> (\<forall>e2. updates e2 = updates e1 \<and> updateQueue e2 = updateQueue e1
                \<and> rerenderKeeps X {c} \<and> \<not> Mounted (nodes e2 c)
              \<longrightarrow> (\<exists>e' new. updateComponents X e2 = Inr e' \<and> calls e' = calls e2 @ new
                      \<and> count_list new (Rerender c) = 0)))
   \<and> (\<forall>ud uds e0 e1. Mounted (nodes e0 (compo ud)) \<and> compo ud \<in> updates e0
          \<and> updateRoot X (compo ud) e0 = (None, e1)
        \<longrightarrow> updateLoop X (ud # uds) e0 =
              updateLoop X uds
                (componentUpdated (e1\<lparr>calls := calls e0 @ [Rerender (compo ud)]\<rparr>) (compo ud)))"
proof -
  from scheduleAll_same[OF assms] obtain e1 where
    s: "scheduleAll e ns = Some e1" and c1: "consistent e1" and p: "c \<in> updates e1"
    and n: "count_list (map compo (updateQueue e1)) c = 1"
    by blast
  have same: "consistent e2" if "updates e2 = updates e1 \<and> updateQueue e2 = updateQueue e1" for e2
    using that c1 by (simp add: consistent_def)
  have step: "(\<forall>ud uds e0 e1. Mounted (nodes e0 (compo ud)) \<and> compo ud \<in> updates e0
          \<and> updateRoot X (compo ud) e0 = (None, e1)
        \<longrightarrow> updateLoop X (ud # uds) e0 =
              updateLoop X uds
                (componentUpdated (e1\<lparr>calls := calls e0 @ [Rerender (compo ud)]\<rparr>) (compo ud)))"
    by (intro allI impI updateLoop_rerender) simp_all
  have "\<exists>e1. scheduleAll e ns = Some e1
          \<and> c \<in> updates e1
          \<and> count_list (map compo (updateQueue e1)) c = 1
          \<and> (\<forall>e2 e'. updates e2 = updates e1 \<and> updateQueue e2 = updateQueue e1
                \<and> sorts (sortSlice X) \<and> updateComponents X e2 = Inr e'
              \<longrightarrow> (\<exists>new. calls e' = calls e2 @ new \<and> count_list new (Rerender c) \<le> 1))
          \<and> (\<forall>e2. updates e2 = updates e1 \<and> updateQueue e2 = updateQueue e1
                \<and> sorts (sortSlice X) \<and> rerenderKeeps X {c} \<and> Mounted (nodes e2 c)
              \<longrightarrow> (\<exists>e' new. updateComponents X e2 = Inr e' \<and> calls e' = calls e2 @ new
                      \<and> count_list new (Rerender c) = 1 \<and> c \<notin> updates e'))
          \<and> (\<forall>e2. updates e2 = updates e1 \<and> updateQueue e2 = updateQueue e1
                \<and> rerenderKeeps X {c} \<and> \<not> Mounted (nodes e2 c)
              \<longrightarrow> (\<exists>e' new. updateComponents X e2 = Inr e' \<and> calls e' = calls e2 @ new
                      \<and> count_list new (Rerender c) = 0))"
  proof (rule exI[of _ e1], intro conjI allI impI)
    show "scheduleAll e ns = Some e1" by (rule s)
    show "c \<in> updates e1" by (rule p)
    show "count_list (map compo (updateQueue e1)) c = 1" by (rule n)
  next
    fix e2 :: engine and e'
    assume h: "updates e2 = updates e1 \<and> updateQueue e2 = updateQueue e1
                \<and> sorts (sortSlice X) \<and> updateComponents X e2 = Inr e'"
    then have "consistent e2" by (intro same) simp
    moreover from h have "sorts (sortSlice X)" "updateComponents X e2 = Inr e'" by simp_all
    ultimately show "\<exists>new. calls e' = calls e2 @ new \<and> count_list new (Rerender c) \<le> 1"
      by (rule updateComponents_at_most_once)
  next
    fix e2 :: engine
    assume h: "updates e2 = updates e1 \<and> updateQueue e2 = updateQueue e1
                \<and> sorts (sortSlice X) \<and> rerenderKeeps X {c} \<and> Mounted (nodes e2 c)"
    then have "consistent e2" by (intro same) simp
    moreover from h p have "c \<in> updates e2" by simp
    moreover from h have "sorts (sortSlice X)" "rerenderKeeps X {c}" "Mounted (nodes e2 c)"
      by simp_all
    ultimately have "\<exists>e' new. updateComponents X e2 = Inr e' \<and> calls e' = calls e2 @ new
            \<and> count_list new (Rerender c) = 1 \<and> c \<notin> updates e' \<and> updateQueue e' = []"
      by (intro updateComponents_reaches)
    then show "\<exists>e' new. updateComponents X e2 = Inr e' \<and> calls e' = calls e2 @ new
                      \<and> count_list new (Rerender c) = 1 \<and> c \<notin> updates e'"
      by blast
  next
    fix e2 :: engine
    assume h: "updates e2 = updates e1 \<and> updateQueue e2 = updateQueue e1
                \<and> rerenderKeeps X {c} \<and> \<not> Mounted (nodes e2 c)"
    then have "rerenderKeeps X {c}" "\<not> Mounted (nodes e2 c)" by simp_all
    then show "\<exists>e' new. updateComponents X e2 = Inr e' \<and> calls e' = calls e2 @ new
                      \<and> count_list new (Rerender c) = 0"
      by (rule updateComponents_passes_unmounted)
  qed
  with step show ?thesis by (rule conjI[rotated])
qed

theorem scheduled_once_rerendered_at_most_once_witness:
  "consistent exampleEngine
   \<and> Mounted (nodes exampleEngine 4) \<and> nearestComposer (nodes exampleEngine) 4 3
   \<and> Mounted (nodes exampleEngine 3) \<and> nearestComposer (nodes exampleEngine) 3 3
   \<and> scheduleAll exampleEngine [4, 3, 3] = Some scheduled3
   \<and> count_list (map compo (updateQueue scheduled3)) 3 = 1
   \<and> (\<exists>e' new. updateComponents quiet scheduled3 = Inr e' \<and> calls e' = calls scheduled3 @ new
         \<and> count_list new (Rerender 3) = 1 \<and> 3 \<notin> updates e')"
proof -
  have c: "consistent exampleEngine"
    by (simp add: consistent_def exampleEngine_def)
  have m: "Mounted (nodes exampleEngine 4)" "Mounted (nodes exampleEngine 3)"
    by (simp_all add: example_defs)
  have p4: "ancestors (nodes exampleEngine) (Some 4) [4, 3, 2, 1]"
    and p3: "ancestors (nodes exampleEngine) (Some 3) [3, 2, 1]"
    by (simp_all add: ancestors_Some ancestors_None example_defs)
  have c4: "composersOf (nodes exampleEngine) [4, 3, 2, 1] = 3 # [2, 1]"
    and c3: "composersOf (nodes exampleEngine) [3, 2, 1] = 3 # [2, 1]"
    by (simp_all add: composersOf_def example_defs)
  have n4: "nearestComposer (nodes exampleEngine) 4 3"
    unfolding nearestComposer_def using p4 c4 by blast
  have n3: "nearestComposer (nodes exampleEngine) 3 3"
    unfolding nearestComposer_def using p3 c3 by blast
  have ne: "[4, 3, 3::nat] \<noteq> []" by simp
  have al: "\<forall>n\<in>set [4, 3, 3]. Mounted (nodes exampleEngine n) \<and> nearestComposer (nodes exampleEngine) n 3"
    using m n4 n3 by simp
  have s: "scheduleAll exampleEngine [4, 3, 3] = Some scheduled3"
    by (simp add: scheduleComponentUpdate_def scheduleLoop.simps scheduled3_def example_defs)
  have so: "sorts (sortSlice quiet)"
    by (simp add: quiet_def sorts_sort_key)
  have k: "rerenderKeeps quiet {3}"
    by (rule rerenderKeeps_quiet)
  have m3: "Mounted (nodes scheduled3 3)"
    by (simp add: scheduled3_def example_defs)
  from scheduled_once_rerendered_at_most_once [OF c ne al, of quiet] s
  have "count_list (map compo (updateQueue scheduled3)) 3 = 1"
    and "\<forall>e2. updates e2 = updates scheduled3 \<and> updateQueue e2 = updateQueue scheduled3
                \<and> sorts (sortSlice quiet) \<and> rerenderKeeps quiet {3} \<and> Mounted (nodes e2 3)
              \<longrightarrow> (\<exists>e' new. updateComponents quiet e2 = Inr e' \<and> calls e' = calls e2 @ new
                      \<and> count_list new (Rerender 3) = 1 \<and> 3 \<notin> updates e')"
    by auto
  with so k m3 have "count_list (map compo (updateQueue scheduled3)) 3 = 1"
    and "\<exists>e' new. updateComponents quiet scheduled3 = Inr e' \<and> calls e' = calls scheduled3 @ new
         \<and> count_list new (Rerender 3) = 1 \<and> 3 \<notin> updates e'"
    by blast+
  with c m n4 n3 s show ?thesis by blast
qed

section \<open>A pending component without a batch entry\<close>

text \<open>Component 3 mounted and in the pending set, the batch list empty.\<close>

definition stranded3 :: engine where
  "stranded3 = exampleEngine\<lparr>updates := {3}\<rparr>"

text \<open>
  C3 does not hold of the code. Component 3 is scheduled and then unmounted; the flush
  passes over its entry without taking it out of the pending set, and clears the batch
  list. Once the component is mounted again, it is pending without a batch entry:
  scheduling it (directly or through the element 4 below it) returns at the membership
  test and appends nothing, and the next flush re-renders nothing and leaves it pending.
\<close>

theorem pending_component_is_stranded:
  "scheduleAll exampleEngine [3] = Some scheduled3
   \<and> updateComponents quiet
        (scheduled3\<lparr>nodes := (nodes scheduled3)(3 := mk (Some 2) False True [4])\<rparr>) =
       Inr (stranded3\<lparr>nodes := (nodes stranded3)(3 := mk (Some 2) False True [4])\<rparr>)
   \<and> Mounted (nodes stranded3 3)
   \<and> 3 \<in> updates stranded3
   \<and> updateQueue stranded3 = []
   \<and> consistent scheduled3
   \<and> \<not> consistent stranded3
   \<and> scheduleComponentUpdate stranded3 3 = Some stranded3
   \<and> scheduleComponentUpdate stranded3 4 = Some stranded3
   \<and> updateComponents quiet stranded3 = Inr stranded3
   \<and> calls stranded3 = []"
  by (simp add: scheduleComponentUpdate_def scheduleLoop.simps updateComponents_def
        consistent_def scheduled3_def stranded3_def example_defs)

section \<open>Deferred events\<close>

lemma scheduleComponentUpdate_calls:
  "scheduleComponentUpdate e n = Some e2 \<Longrightarrow> calls e2 = calls e"
  by (auto simp: scheduleComponentUpdate_def split: if_splits option.splits walk.splits)

lemma invoke_calls: "invoke X ev e = Inr e1 \<Longrightarrow> calls e1 = calls e @ [Exec ev]"
  by (auto simp: invoke_def split: sum.splits)

lemma execEvent_calls:
  "execEvent X e ev = Inr e1 \<Longrightarrow> calls e1 = calls e \<or> calls e1 = calls e @ [Exec ev]"
  by (auto simp: execEvent_def dest: invoke_calls split: if_splits)

text \<open>The loop of \<^verbatim>\<open>Consume\<close> up to the \<^verbatim>\<open>default\<close> branch: only events that are not deferable
  are executed before the flush.\<close>

lemma Consume_receives:
  assumes "Consume X e = Some r"
  shows "\<forall>e'. r = Inr e' \<longrightarrow>
           (\<exists>e0 pre. events e0 = [] \<and> flush X e0 = Inr e' \<and> calls e0 = calls e @ pre
              \<and> (\<forall>k\<in>set pre. \<exists>ev. k = Exec ev \<and> \<not> deferable ev))"
  using assms
proof (induction rule: Consume.raw_induct[rotated 1, consumes 1])
  case (1 consume X e r)
  show ?case
  proof (cases "events e")
    case Nil
    with 1(2) have "r = flush X e" by simp
    with Nil show ?thesis
      by (auto intro!: exI[of _ e] exI[of _ "[]"])
  next
    case (Cons ev rest)
    show ?thesis
    proof (cases "deferable ev")
      case True
      with Cons 1(2) have "consume X (e\<lparr>events := rest, defers := defers e @ [ev]\<rparr>) = Some r"
        by simp
      from 1(1)[OF this] show ?thesis by simp
    next
      case False
      show ?thesis
      proof (cases "execEvent X (e\<lparr>events := rest\<rparr>) ev")
        case (Inl s)
        with Cons False 1(2) have "r = Inl s" by simp
        then show ?thesis by simp
      next
        case (Inr e1)
        with Cons False 1(2) obtain e2 where
          s: "scheduleComponentUpdate e1 (source ev) = Some e2" and c: "consume X e2 = Some r"
          by (auto split: option.splits)
        from execEvent_calls[OF Inr] have "calls e1 = calls e \<or> calls e1 = calls e @ [Exec ev]"
          by simp
        with scheduleComponentUpdate_calls[OF s]
        have c2: "calls e2 = calls e \<or> calls e2 = calls e @ [Exec ev]" by simp
        show ?thesis
        proof (intro allI impI)
          fix e'
          assume "r = Inr e'"
          with 1(1)[OF c] obtain e0 pre where
            p: "events e0 = []" "flush X e0 = Inr e'" "calls e0 = calls e2 @ pre"
              "\<forall>k\<in>set pre. \<exists>ev. k = Exec ev \<and> \<not> deferable ev"
            by blast
          from c2 show "\<exists>e0 pre. events e0 = [] \<and> flush X e0 = Inr e' \<and> calls e0 = calls e @ pre
              \<and> (\<forall>k\<in>set pre. \<exists>ev. k = Exec ev \<and> \<not> deferable ev)"
          proof
            assume "calls e2 = calls e"
            with p show ?thesis by (intro exI[of _ e0] exI[of _ pre]) simp
          next
            assume "calls e2 = calls e @ [Exec ev]"
            with p False show ?thesis by (intro exI[of _ e0] exI[of _ "Exec ev # pre"]) simp
          qed
        qed
      qed
    qed
  qed
qed

text \<open>The drain: the events that run are events of the buffer, in the order of the buffer.\<close>

lemma deferLoop_calls:
  "deferLoop X evs e = Inr e' \<Longrightarrow> \<exists>ran. subseq ran evs \<and> calls e' = calls e @ map Exec ran"
proof (induction evs arbitrary: e)
  case Nil
  then show ?case by simp
next
  case (Cons ev evs)
  show ?case
  proof (cases "Mounted (nodes e (source ev))")
    case False
    with Cons.prems have "deferLoop X evs e = Inr e'" by simp
    from Cons.IH[OF this] obtain ran where "subseq ran evs" "calls e' = calls e @ map Exec ran"
      by blast
    then show ?thesis by (intro exI[of _ ran]) (simp add: list_emb_Cons)
  next
    case True
    with Cons.prems obtain e1 where i: "invoke X ev e = Inr e1" and l: "deferLoop X evs e1 = Inr e'"
      by (auto split: sum.splits)
    from Cons.IH[OF l] obtain ran where "subseq ran evs" "calls e' = calls e1 @ map Exec ran"
      by blast
    with invoke_calls[OF i] show ?thesis by (intro exI[of _ "ev # ran"]) simp
  qed
qed

lemma updateComponents_rerenders:
  "updateComponents X e = Inr e1 \<Longrightarrow> \<exists>cs. calls e1 = calls e @ map Rerender cs"
proof (cases "updates e = {}")
  case True
  assume "updateComponents X e = Inr e1"
  with True have "e1 = e" by (simp add: updateComponents_def)
  then show ?thesis by (intro exI[of _ "[]"]) simp
next
  case False
  assume "updateComponents X e = Inr e1"
  with False obtain e2 where
    l: "updateLoop X (sortSlice X (updateQueue e)) (e\<lparr>updateQueue := sortSlice X (updateQueue e)\<rparr>) = Inr e2"
    and e1: "e1 = e2\<lparr>updateQueue := []\<rparr>"
    by (auto simp: updateComponents_def split: sum.splits)
  from updateLoop_calls[OF l] obtain ds where
    "subseq ds (sortSlice X (updateQueue e))"
    "calls e2 = calls e @ map (\<lambda>d. Rerender (compo d)) ds"
    by auto
  with e1 show ?thesis by (intro exI[of _ "map compo ds"]) (simp add: comp_def)
qed

text \<open>Functions of events that return and change no mount flag.\<close>

definition steady :: "ext \<Rightarrow> event list \<Rightarrow> bool" where
  "steady X evs =
     (\<forall>ev\<in>set evs. \<forall>e. \<exists>e1. apply_func X (ev_function ev) (source ev) e = Inr e1
        \<and> (\<forall>n. Mounted (nodes e1 n) = Mounted (nodes e n)))"

lemma deferLoop_steady:
  assumes "steady X evs"
  shows "\<exists>e'. deferLoop X evs e = Inr e'
          \<and> calls e' = calls e @ map Exec (filter (\<lambda>ev. Mounted (nodes e (source ev))) evs)
          \<and> (\<forall>n. Mounted (nodes e' n) = Mounted (nodes e n))"
  using assms
proof (induction evs arbitrary: e)
  case Nil
  then show ?case by simp
next
  case (Cons ev evs)
  then have st: "steady X evs" by (simp add: steady_def)
  show ?case
  proof (cases "Mounted (nodes e (source ev))")
    case False
    with Cons.IH[OF st, of e] show ?thesis by simp
  next
    case True
    from Cons.prems obtain e0 where a: "apply_func X (ev_function ev) (source ev) e = Inr e0"
      and m0: "\<forall>n. Mounted (nodes e0 n) = Mounted (nodes e n)"
      unfolding steady_def by (metis list.set_intros(1))
    let ?e1 = "e0\<lparr>calls := calls e @ [Exec ev]\<rparr>"
    from a have i: "invoke X ev e = Inr ?e1" by (simp add: invoke_def)
    from m0 have m1: "\<forall>n. Mounted (nodes ?e1 n) = Mounted (nodes e n)" by simp
    from Cons.IH[OF st, of ?e1] obtain e' where
      "deferLoop X evs ?e1 = Inr e'"
      "calls e' = calls ?e1 @ map Exec (filter (\<lambda>ev. Mounted (nodes ?e1 (source ev))) evs)"
      "\<forall>n. Mounted (nodes e' n) = Mounted (nodes ?e1 n)"
      by blast
    with True i m0 show ?thesis by (intro exI[of _ e']) simp
  qed
qed

text \<open>Every parent chain of the tree ends; and events whose execution returns, sends nothing
  and leaves the tree as it is.\<close>

definition rooted :: "(nid \<Rightarrow> ui) \<Rightarrow> bool" where
  "rooted t = (\<forall>n. \<exists>ns. ancestors t (Some n) ns)"

definition returning :: "ext \<Rightarrow> event list \<Rightarrow> bool" where
  "returning X evs =
     (\<forall>ev\<in>set evs. \<forall>e. \<exists>e1. execEvent X e ev = Inr e1
        \<and> events e1 = events e \<and> nodes e1 = nodes e)"

lemma scheduleComponentUpdate_returns:
  assumes "rooted (nodes e)"
  shows "\<exists>e2. scheduleComponentUpdate e n = Some e2 \<and> nodes e2 = nodes e \<and> events e2 = events e"
proof -
  from assms obtain ns where ns: "ancestors (nodes e) (Some n) ns"
    unfolding rooted_def by blast
  note l = scheduleLoop_search[OF ns refl refl, of 0]
  show ?thesis
  proof (cases "composersOf (nodes e) ns")
    case Nil
    with l show ?thesis by (simp add: scheduleComponentUpdate_def)
  next
    case (Cons c cs)
    with l show ?thesis by (simp add: scheduleComponentUpdate_def)
  qed
qed

lemma Consume_returns:
  "evs = events e \<Longrightarrow> rooted (nodes e) \<Longrightarrow> returning X evs \<Longrightarrow>
   \<exists>e0. events e0 = [] \<and> Consume X e = Some (flush X e0)"
proof (induction evs arbitrary: e)
  case Nil
  then have "Consume X e = Some (flush X e)"
    by (subst Consume.simps) simp
  with Nil.prems(1) show ?case by (intro exI[of _ e]) simp
next
  case (Cons ev rest)
  from Cons.prems(3) have rest: "returning X rest"
    by (simp add: returning_def)
  show ?case
  proof (cases "deferable ev")
    case True
    let ?e1 = "e\<lparr>events := rest, defers := defers e @ [ev]\<rparr>"
    have step: "Consume X e = Consume X ?e1"
      using Cons.prems(1)[symmetric] True by (subst Consume.simps) simp
    have "\<exists>e0. events e0 = [] \<and> Consume X ?e1 = Some (flush X e0)"
      using Cons.prems(2) rest by (intro Cons.IH) simp_all
    then show ?thesis unfolding step .
  next
    case False
    from Cons.prems(3) obtain e1 where x: "execEvent X (e\<lparr>events := rest\<rparr>) ev = Inr e1"
      and e1: "events e1 = rest" "nodes e1 = nodes e"
      unfolding returning_def by (metis list.set_intros(1) engine.select_convs(1,4)
          engine.surjective engine.update_convs(4))
    from Cons.prems(2) e1 have "rooted (nodes e1)" by simp
    from scheduleComponentUpdate_returns[OF this, of "source ev"] obtain e2 where
      s: "scheduleComponentUpdate e1 (source ev) = Some e2" and e2: "nodes e2 = nodes e1" "events e2 = events e1"
      by blast
    have step: "Consume X e = Consume X e2"
      using Cons.prems(1)[symmetric] False x s by (subst Consume.simps) simp
    have "\<exists>e0. events e0 = [] \<and> Consume X e2 = Some (flush X e0)"
      using Cons.prems(2) rest e1 e2 by (intro Cons.IH) simp_all
    then show ?thesis unfolding step .
  qed
qed

lemma rooted_exampleTree: "rooted exampleTree"
  unfolding rooted_def
proof
  fix n :: nat
  have "ancestors exampleTree (Some n)
          (if n = 4 then [4, 3, 2, 1] else if n = 3 then [3, 2, 1] else if n = 2 then [2, 1]
           else if n = 7 then [7, 0] else [n])"
    by (simp add: ancestors_Some ancestors_None example_defs)
  then show "\<exists>ns. ancestors exampleTree (Some n) ns" by blast
qed

text \<open>Three events on the channel of the example: a deferable one and one that is not, both
  with the element 4 as their source, and a deferable one whose source 5 is not mounted.\<close>

definition deferred4 :: event where
  "deferred4 = \<lparr>source = 4, deferable = True, ev_function = UserFunc 1\<rparr>"

definition direct4 :: event where
  "direct4 = \<lparr>source = 4, deferable = False, ev_function = UserFunc 2\<rparr>"

definition deferred5 :: event where
  "deferred5 = \<lparr>source = 5, deferable = True, ev_function = UserFunc 3\<rparr>"

definition queued :: engine where
  "queued = exampleEngine\<lparr>events := [deferred4, direct4, deferred5]\<rparr>"

text \<open>
  C4. \<^verbatim>\<open>Consume\<close> returns, with the result of the flush on the empty channel, when every
  parent chain of the tree ends and the events of the channel return, send nothing and
  leave the tree as it is. A run of \<^verbatim>\<open>Consume\<close> that returns has first received the events
  of the channel, executing only those that are not deferable, and has then, on the empty
  channel, done the flush. A deferable event taken from the channel is appended to the buffer and not
  executed (in \<^verbatim>\<open>Consume\<close> and in \<^verbatim>\<open>ConsumeNext\<close>). The flush is the update flush, which logs
  re-renders only, followed by the drain of the buffer: the events that run are events of
  the buffer, in the order of the buffer, and the buffer is empty afterwards. In the drain
  an event whose source is mounted at its turn has its function called with the context of
  its source (a nil function too, which panics), and an event whose source is not mounted
  then is passed over. When the functions of the buffered events return and change no
  mount flag, the drain returns and has run exactly the events whose source is mounted.
\<close>

theorem deferred_events_run_after_flush:
  "(rooted (nodes e) \<and> returning X (events e) \<longrightarrow>
       (\<exists>e0. events e0 = [] \<and> Consume X e = Some (flush X e0)))
   \<and> (\<forall>e'. Consume X e = Some (Inr e') \<longrightarrow>
       (\<exists>e0 pre. events e0 = [] \<and> flush X e0 = Inr e' \<and> calls e0 = calls e @ pre
          \<and> (\<forall>k\<in>set pre. \<exists>ev. k = Exec ev \<and> \<not> deferable ev)))
   \<and> (\<forall>e'. flush X e = Inr e' \<longrightarrow>
       (\<exists>e1 cs ran. updateComponents X e = Inr e1 \<and> calls e1 = calls e @ map Rerender cs
          \<and> execDeferableEvents X e1 = Inr e' \<and> subseq ran (defers e1)
          \<and> calls e' = calls e1 @ map Exec ran \<and> defers e' = []))
   \<and> (deferable ev \<longrightarrow>
        Consume X (e\<lparr>events := ev # rest\<rparr>)
          = Consume X (e\<lparr>events := rest, defers := defers e @ [ev]\<rparr>)
        \<and> ConsumeNext X (e\<lparr>events := ev # rest\<rparr>)
          = Some (flush X (e\<lparr>events := rest, defers := defers e @ [ev]\<rparr>)))
   \<and> (Mounted (nodes e (source ev)) \<longrightarrow>
        deferLoop X (ev # evs) e =
          (case apply_func X (ev_function ev) (source ev) e of
             Inl s \<Rightarrow> Inl s
           | Inr e1 \<Rightarrow> deferLoop X evs (e1\<lparr>calls := calls e @ [Exec ev]\<rparr>)))
   \<and> (Mounted (nodes e (source ev)) \<and> ev_function ev = UserFunc k \<longrightarrow>
        deferLoop X (ev # evs) e =
          (case runFunc X k (source ev) e of
             Inl s \<Rightarrow> Inl s
           | Inr e1 \<Rightarrow> deferLoop X evs (e1\<lparr>calls := calls e @ [Exec ev]\<rparr>)))
   \<and> (Mounted (nodes e (source ev)) \<and> ev_function ev = NilFunc \<longrightarrow>
        deferLoop X (ev # evs) e = Inl NilCall)
   \<and> (\<not> Mounted (nodes e (source ev)) \<longrightarrow> deferLoop X (ev # evs) e = deferLoop X evs e)
   \<and> (steady X (defers e) \<longrightarrow>
        (\<exists>e'. execDeferableEvents X e = Inr e'
           \<and> calls e' = calls e @ map Exec (filter (\<lambda>ev. Mounted (nodes e (source ev))) (defers e))
           \<and> defers e' = []))"
proof (intro conjI allI impI)
  assume "rooted (nodes e) \<and> returning X (events e)"
  then show "\<exists>e0. events e0 = [] \<and> Consume X e = Some (flush X e0)"
    by (intro Consume_returns[OF refl]) simp_all
next
  fix e'
  assume "Consume X e = Some (Inr e')"
  from Consume_receives[OF this]
  show "\<exists>e0 pre. events e0 = [] \<and> flush X e0 = Inr e' \<and> calls e0 = calls e @ pre
          \<and> (\<forall>k\<in>set pre. \<exists>ev. k = Exec ev \<and> \<not> deferable ev)"
    by simp
next
  fix e'
  assume "flush X e = Inr e'"
  then obtain e1 where u: "updateComponents X e = Inr e1" and d: "execDeferableEvents X e1 = Inr e'"
    by (auto simp: flush_def split: sum.splits)
  from d obtain e2 where l: "deferLoop X (defers e1) e1 = Inr e2" and e': "e' = e2\<lparr>defers := []\<rparr>"
    by (auto simp: execDeferableEvents_def split: sum.splits)
  from updateComponents_rerenders[OF u] obtain cs where cs: "calls e1 = calls e @ map Rerender cs"
    by blast
  from deferLoop_calls[OF l] obtain ran where ran: "subseq ran (defers e1)"
    "calls e2 = calls e1 @ map Exec ran"
    by blast
  from u cs d ran e'
  show "\<exists>e1 cs ran. updateComponents X e = Inr e1 \<and> calls e1 = calls e @ map Rerender cs
          \<and> execDeferableEvents X e1 = Inr e' \<and> subseq ran (defers e1)
          \<and> calls e' = calls e1 @ map Exec ran \<and> defers e' = []"
    by (intro exI[of _ e1] exI[of _ cs] exI[of _ ran]) simp
next
  assume "deferable ev"
  then show "Consume X (e\<lparr>events := ev # rest\<rparr>)
          = Consume X (e\<lparr>events := rest, defers := defers e @ [ev]\<rparr>)"
    by (subst Consume.simps) simp
next
  assume "deferable ev"
  then show "ConsumeNext X (e\<lparr>events := ev # rest\<rparr>)
          = Some (flush X (e\<lparr>events := rest, defers := defers e @ [ev]\<rparr>))"
    by (simp add: ConsumeNext_def)
next
  assume "Mounted (nodes e (source ev))"
  then show "deferLoop X (ev # evs) e =
          (case apply_func X (ev_function ev) (source ev) e of
             Inl s \<Rightarrow> Inl s
           | Inr e1 \<Rightarrow> deferLoop X evs (e1\<lparr>calls := calls e @ [Exec ev]\<rparr>))"
    by (simp add: invoke_def split: sum.splits)
next
  assume "Mounted (nodes e (source ev)) \<and> ev_function ev = UserFunc k"
  then show "deferLoop X (ev # evs) e =
          (case runFunc X k (source ev) e of
             Inl s \<Rightarrow> Inl s
           | Inr e1 \<Rightarrow> deferLoop X evs (e1\<lparr>calls := calls e @ [Exec ev]\<rparr>))"
    by (simp add: invoke_def split: sum.splits)
next
  assume "Mounted (nodes e (source ev)) \<and> ev_function ev = NilFunc"
  then show "deferLoop X (ev # evs) e = Inl NilCall"
    by (simp add: invoke_def)
next
  assume "\<not> Mounted (nodes e (source ev))"
  then show "deferLoop X (ev # evs) e = deferLoop X evs e"
    by simp
next
  assume "steady X (defers e)"
  from deferLoop_steady[OF this, of e] obtain e2 where
    "deferLoop X (defers e) e = Inr e2"
    "calls e2 = calls e @ map Exec (filter (\<lambda>ev. Mounted (nodes e (source ev))) (defers e))"
    by blast
  then show "\<exists>e'. execDeferableEvents X e = Inr e'
           \<and> calls e' = calls e @ map Exec (filter (\<lambda>ev. Mounted (nodes e (source ev))) (defers e))
           \<and> defers e' = []"
    by (intro exI[of _ "e2\<lparr>defers := []\<rparr>"]) (simp add: execDeferableEvents_def)
qed

theorem deferred_events_run_after_flush_witness:
  "rooted (nodes queued)
   \<and> returning quiet (events queued)
   \<and> (\<exists>e0. events e0 = [] \<and> Consume quiet queued = Some (flush quiet e0))
   \<and> Consume quiet queued =
     Some (Inr (exampleEngine\<lparr>calls := [Exec direct4, Rerender 3, Exec deferred4]\<rparr>))
   \<and> (\<exists>e0 pre. events e0 = []
         \<and> flush quiet e0 = Inr (exampleEngine\<lparr>calls := [Exec direct4, Rerender 3, Exec deferred4]\<rparr>)
         \<and> calls e0 = calls queued @ pre
         \<and> (\<forall>k\<in>set pre. \<exists>ev. k = Exec ev \<and> \<not> deferable ev))
   \<and> steady quiet (defers (exampleEngine\<lparr>defers := [deferred4, deferred5]\<rparr>))
   \<and> (\<exists>e'. execDeferableEvents quiet (exampleEngine\<lparr>defers := [deferred4, deferred5]\<rparr>) = Inr e'
         \<and> calls e' = [Exec deferred4] \<and> defers e' = [])"
proof -
  let ?done = "exampleEngine\<lparr>calls := [Exec direct4, Rerender 3, Exec deferred4]\<rparr>"
  let ?b = "exampleEngine\<lparr>defers := [deferred4, deferred5]\<rparr>"
  have c: "Consume quiet queued = Some (Inr ?done)"
    by (simp add: Consume.simps execEvent_def invoke_def scheduleComponentUpdate_def
          scheduleLoop.simps flush_def updateComponents_def execDeferableEvents_def
          componentUpdated_def queued_def deferred4_def direct4_def deferred5_def example_defs)
  from deferred_events_run_after_flush [where X = quiet and e = queued] c
  have r: "\<exists>e0 pre. events e0 = [] \<and> flush quiet e0 = Inr ?done \<and> calls e0 = calls queued @ pre
         \<and> (\<forall>k\<in>set pre. \<exists>ev. k = Exec ev \<and> \<not> deferable ev)"
    by blast
  have ro: "rooted (nodes queued)"
    using rooted_exampleTree by (simp add: queued_def exampleEngine_def)
  have re: "returning quiet (events queued)"
    by (simp add: returning_def execEvent_def invoke_def quiet_def queued_def
          deferred4_def direct4_def deferred5_def)
  from deferred_events_run_after_flush [where X = quiet and e = queued] ro re
  have t: "\<exists>e0. events e0 = [] \<and> Consume quiet queued = Some (flush quiet e0)"
    by blast
  have s: "steady quiet (defers ?b)"
    by (simp add: steady_def quiet_def deferred4_def deferred5_def)
  have f: "filter (\<lambda>ev. Mounted (nodes ?b (source ev))) (defers ?b) = [deferred4]"
    by (simp add: deferred4_def deferred5_def example_defs)
  have cb: "calls ?b = []"
    by (simp add: exampleEngine_def)
  from deferred_events_run_after_flush [where X = quiet and e = ?b] s
  have "\<exists>e'. execDeferableEvents quiet ?b = Inr e'
           \<and> calls e' = calls ?b @ map Exec (filter (\<lambda>ev. Mounted (nodes ?b (source ev))) (defers ?b))
           \<and> defers e' = []"
    by blast
  then have d: "\<exists>e'. execDeferableEvents quiet ?b = Inr e' \<and> calls e' = [Exec deferred4] \<and> defers e' = []"
    unfolding f cb by simp
  from ro re t c r s d show ?thesis by blast
qed

end
